theory Spec2Isabelle
  imports Main "HOL-Library.Word"
begin

unbundle bit_operations_syntax

section \<open>Data model of server/registry.c\<close>

text \<open>
  A \<^verbatim>\<open>WCHAR\<close> is a 16-bit code unit, a data byte an 8-bit word. A wide string held by
  a key (\<^verbatim>\<open>WCHAR *\<close>) is the list of its code units before the terminating nul; a
  pointer that may be \<^verbatim>\<open>NULL\<close> is an option.
\<close>

type_synonym WCHAR = "16 word"
type_synonym byte = "8 word"

text \<open>\<^verbatim>\<open>struct key_value\<close>: name, type (a C int), length in bytes, data pointer.\<close>

record key_value =
  vname :: "WCHAR list"
  vtype :: "32 word"
  vlen :: nat
  vdata :: "byte list option"

text \<open>
  \<^verbatim>\<open>struct key\<close>. The two arrays are the lists of their slots in use, so that
  \<^verbatim>\<open>last_subkey\<close> and \<^verbatim>\<open>last_value\<close> are the lengths minus one; the allocated
  counts \<^verbatim>\<open>nb_subkeys\<close> and \<^verbatim>\<open>nb_values\<close> are fields of their own. The tree owns
  its subkeys, so the \<^verbatim>\<open>parent\<close> pointer of a key is its position in the tree: a
  function that follows it takes the chain of ancestors, and a key taken out of its
  parent's array is a value of its own.
\<close>

datatype key = Key
  (name: "WCHAR list option")
  (kclass: "WCHAR list option")
  (nb_subkeys: int)
  (subkeys: "key list")
  (nb_values: int)
  (kvalues: "key_value list")
  (flags: "16 word")
  (level: "16 word")
  (modif: int)

definition last_subkey :: "key \<Rightarrow> int" where
  "last_subkey k = int (length (subkeys k)) - 1"

definition last_value :: "key \<Rightarrow> int" where
  "last_value k = int (length (kvalues k)) - 1"

fun set_kclass :: "WCHAR list option \<Rightarrow> key \<Rightarrow> key" where
  "set_kclass x (Key n c ns sk nv vs f l m) = Key n x ns sk nv vs f l m"

fun set_nb_subkeys :: "int \<Rightarrow> key \<Rightarrow> key" where
  "set_nb_subkeys x (Key n c ns sk nv vs f l m) = Key n c x sk nv vs f l m"

fun set_subkeys :: "key list \<Rightarrow> key \<Rightarrow> key" where
  "set_subkeys x (Key n c ns sk nv vs f l m) = Key n c ns x nv vs f l m"

fun set_nb_values :: "int \<Rightarrow> key \<Rightarrow> key" where
  "set_nb_values x (Key n c ns sk nv vs f l m) = Key n c ns sk x vs f l m"

fun set_kvalues :: "key_value list \<Rightarrow> key \<Rightarrow> key" where
  "set_kvalues x (Key n c ns sk nv vs f l m) = Key n c ns sk nv x f l m"

fun set_flags :: "16 word \<Rightarrow> key \<Rightarrow> key" where
  "set_flags x (Key n c ns sk nv vs f l m) = Key n c ns sk nv vs x l m"

fun set_level :: "16 word \<Rightarrow> key \<Rightarrow> key" where
  "set_level x (Key n c ns sk nv vs f l m) = Key n c ns sk nv vs f x m"

fun set_modif :: "int \<Rightarrow> key \<Rightarrow> key" where
  "set_modif x (Key n c ns sk nv vs f l m) = Key n c ns sk nv vs f l x"

text \<open>Key flags.\<close>

definition KEY_VOLATILE :: "16 word" where "KEY_VOLATILE = 0x0001"
definition KEY_DELETED :: "16 word" where "KEY_DELETED = 0x0002"
definition KEY_ROOT :: "16 word" where "KEY_ROOT = 0x0004"

definition MIN_SUBKEYS :: int where "MIN_SUBKEYS = 8"
definition MIN_VALUES :: int where "MIN_VALUES = 8"

subsection \<open>Process-wide state\<close>

datatype error =
    ERROR_FILE_NOT_FOUND
  | ERROR_NO_MORE_ITEMS
  | ERROR_KEY_DELETED
  | ERROR_ACCESS_DENIED
  | ERROR_CHILD_MUST_BE_VOLATILE
  | ERROR_OUTOFMEMORY
  | ERROR_NOT_REGISTRY_FILE

text \<open>
  The globals of the file (\<^verbatim>\<open>current_level\<close>, \<^verbatim>\<open>saving_level\<close>,
  \<^verbatim>\<open>saving_version\<close>), the error last given to \<^verbatim>\<open>set_error\<close>, the clock read by
  \<^verbatim>\<open>time(NULL)\<close>, and the allocator: \<open>allocs\<close> lists, in order, whether each
  coming allocation request succeeds (once the list is used up every request succeeds),
  \<open>alloc_failures\<close> counts the requests that have failed, and \<open>freed\<close> holds the
  value data buffers given to \<^verbatim>\<open>free\<close>, the latest first.
\<close>

record server =
  current_level :: int
  saving_level :: int
  saving_version :: int
  last_error :: "error option"
  now :: int
  allocs :: "bool list"
  alloc_failures :: nat
  freed :: "byte list list"

definition set_error :: "error \<Rightarrow> server \<Rightarrow> server" where
  "set_error e s = s\<lparr>last_error := Some e\<rparr>"

text \<open>One request to \<^verbatim>\<open>malloc\<close>, \<^verbatim>\<open>realloc\<close> or \<^verbatim>\<open>strdupW\<close>.\<close>

definition alloc :: "server \<Rightarrow> bool \<times> server" where
  "alloc s =
     (case allocs s of
        [] \<Rightarrow> (True, s)
      | b # bs \<Rightarrow>
          (b, s\<lparr>allocs := bs,
                alloc_failures := (if b then alloc_failures s else alloc_failures s + 1)\<rparr>))"

definition free_data :: "byte list option \<Rightarrow> server \<Rightarrow> server" where
  "free_data ptr s = (case ptr of None \<Rightarrow> s | Some d \<Rightarrow> s\<lparr>freed := d # freed s\<rparr>)"

text \<open>
  Modelled from the spec: \<^verbatim>\<open>mem_alloc\<close> (and \<^verbatim>\<open>alloc_object\<close> and \<^verbatim>\<open>memdup\<close>, built
  on it) are declared in object.h and request.h, not under src/; an allocation failure
  is reported as \<^verbatim>\<open>OUTOFMEMORY\<close>.
\<close>

definition mem_alloc :: "server \<Rightarrow> bool \<times> server" where
  "mem_alloc s = (case alloc s of (True, s') \<Rightarrow> (True, s')
                                | (False, s') \<Rightarrow> (False, set_error ERROR_OUTOFMEMORY s'))"

definition strlenW :: "WCHAR list \<Rightarrow> int" where
  "strlenW str = int (length str)"

section \<open>Key tree\<close>

subsection \<open>query_key\<close>

record query_key_info_request =
  req_subkeys :: int
  req_max_subkey :: int
  req_max_class :: int
  req_values :: int
  req_max_value :: int
  req_max_data :: int
  req_modif :: int
  req_class :: "WCHAR list"

text \<open>The first loop of \<^verbatim>\<open>query_key\<close>, from index \<open>i\<close> on.\<close>

function query_key_subkeys :: "key \<Rightarrow> int \<Rightarrow> int \<Rightarrow> int \<Rightarrow> int \<times> int" where
  "query_key_subkeys key i max_subkey max_class =
     (if i < last_subkey key then
        (let subkey = subkeys key ! nat i;
             len = (case name subkey of None \<Rightarrow> 0 | Some n \<Rightarrow> strlenW n);
             max_subkey' = (if len > max_subkey then len else max_subkey)
         in case kclass subkey of
              None \<Rightarrow> query_key_subkeys key (i + 1) max_subkey' max_class
            | Some c \<Rightarrow>
                query_key_subkeys key (i + 1) max_subkey'
                  (if strlenW c > max_class then strlenW c else max_class))
      else (max_subkey, max_class))"
  by pat_completeness auto
termination
  by (relation "measure (\<lambda>(key, i, _, _). nat (last_subkey key - i))") auto

declare query_key_subkeys.simps [simp del]


text \<open>The second loop of \<^verbatim>\<open>query_key\<close>, from index \<open>i\<close> on.\<close>

function query_key_values :: "key \<Rightarrow> int \<Rightarrow> int \<Rightarrow> int \<Rightarrow> int \<times> int" where
  "query_key_values key i max_value max_data =
     (if i < last_value key then
        (let v = kvalues key ! nat i;
             len = strlenW (vname v);
             max_value' = (if len > max_value then len else max_value);
             len' = int (vlen v)
         in query_key_values key (i + 1) max_value'
              (if len' > max_data then len' else max_data))
      else (max_value, max_data))"
  by pat_completeness auto
termination
  by (relation "measure (\<lambda>(key, i, _, _). nat (last_value key - i))") auto

declare query_key_values.simps [simp del]


definition query_key :: "key \<Rightarrow> query_key_info_request" where
  "query_key key =
     (case query_key_subkeys key 0 0 0 of (max_subkey, max_class) \<Rightarrow>
      case query_key_values key 0 0 0 of (max_value, max_data) \<Rightarrow>
        \<lparr> req_subkeys = last_subkey key + 1,
          req_max_subkey = max_subkey,
          req_max_class = max_class,
          req_values = last_value key + 1,
          req_max_value = max_value,
          req_max_data = max_data,
          req_modif = modif key,
          req_class = (case kclass key of None \<Rightarrow> [] | Some c \<Rightarrow> c) \<rparr>)"

subsection \<open>String and path utilities\<close>

text \<open>
  Modelled from the spec: \<^verbatim>\<open>strcmpiW\<close> and the case table behind it are declared in
  unicode.h, not under src/. The spec has it compare two wide strings without regard to
  case and return a negative, zero or positive number; the model folds the ASCII letters
  and returns the difference of the first code units that differ, the terminating nul
  counting as 0.
\<close>

definition tolowerW :: "WCHAR \<Rightarrow> WCHAR" where
  "tolowerW ch = (if 0x41 \<le> ch \<and> ch \<le> 0x5A then ch + 0x20 else ch)"

fun strcmpiW :: "WCHAR list \<Rightarrow> WCHAR list \<Rightarrow> int" where
  "strcmpiW [] [] = 0"
| "strcmpiW [] (b # bs) = - uint (tolowerW b)"
| "strcmpiW (a # as) [] = uint (tolowerW a)"
| "strcmpiW (a # as) (b # bs) =
     (if tolowerW a = tolowerW b then strcmpiW as bs
      else uint (tolowerW a) - uint (tolowerW b))"

text \<open>
  Modelled from the spec: \<^verbatim>\<open>MAX_PATH\<close> comes from the Windows headers, not under src/.
\<close>

definition MAX_PATH :: nat where "MAX_PATH = 260"

definition backslash :: WCHAR where "backslash = 0x5C"

text \<open>
  \<^verbatim>\<open>get_path_token\<close> with its cursor made explicit: the argument is the code units
  between the static \<^verbatim>\<open>path\<close> and \<^verbatim>\<open>end\<close>, the result the token and the new cursor.
  The bound on the token is the source's \<^verbatim>\<open>buffer + sizeof(buffer) - 1\<close>, pointer
  arithmetic on \<^verbatim>\<open>WCHAR *\<close> with a size in bytes.
\<close>

definition token_limit :: nat where
  "token_limit = 2 * (MAX_PATH + 1) - 1"

definition get_path_token :: "WCHAR list \<Rightarrow> WCHAR list \<times> WCHAR list" where
  "get_path_token path =
     (let path1 = dropWhile (\<lambda>ch. ch = backslash) path;
          token = take token_limit (takeWhile (\<lambda>ch. ch \<noteq> 0 \<and> ch \<noteq> backslash) path1)
      in (token, drop (length token) path1))"

text \<open>The first call: \<^verbatim>\<open>end = path + maxlen / sizeof(WCHAR)\<close>.\<close>

definition init_path :: "WCHAR list \<Rightarrow> nat \<Rightarrow> WCHAR list" where
  "init_path initpath maxlen = take (maxlen div 2) initpath"

lemma get_path_token_shorter:
  "get_path_token path = (token, rest) \<Longrightarrow> token \<noteq> [] \<Longrightarrow> length rest < length path"
proof -
  assume a: "get_path_token path = (token, rest)" and b: "token \<noteq> []"
  let ?p1 = "dropWhile (\<lambda>ch. ch = backslash) path"
  from a have r: "rest = drop (length token) ?p1"
    by (auto simp: get_path_token_def Let_def)
  have "length (takeWhile (\<lambda>ch. ch \<noteq> 0 \<and> ch \<noteq> backslash) ?p1) \<le> length ?p1"
    by (rule length_takeWhile_le)
  then have t: "length token \<le> length ?p1"
    using a by (auto simp: get_path_token_def Let_def)
  have "length ?p1 \<le> length path" by (rule length_dropWhile_le)
  with r t b show ?thesis by (cases token) auto
qed

text \<open>
  The tokens that the successive calls of \<^verbatim>\<open>get_path_token\<close> return, up to the first
  empty one.
\<close>

function path_tokens :: "WCHAR list \<Rightarrow> WCHAR list list" where
  "path_tokens path =
     (case get_path_token path of
        (token, rest) \<Rightarrow> if token = [] then [] else token # path_tokens rest)"
  by pat_completeness auto
termination
  by (relation "measure length") (auto dest: get_path_token_shorter [OF sym])

declare path_tokens.simps [simp del]


subsection \<open>Allocation of keys\<close>

text \<open>\<^verbatim>\<open>alloc_key\<close>: \<^verbatim>\<open>alloc_object\<close>, then \<^verbatim>\<open>strdupW\<close> of the name when there is one.\<close>

definition alloc_key :: "WCHAR list option \<Rightarrow> int \<Rightarrow> server \<Rightarrow> key option \<times> server" where
  "alloc_key nm modif' s =
     (case mem_alloc s of
        (False, s1) \<Rightarrow> (None, s1)
      | (True, s1) \<Rightarrow>
          (let key = Key None None 0 [] 0 [] 0 (word_of_int (current_level s1)) modif'
           in case nm of
                None \<Rightarrow> (Some key, s1)
              | Some n \<Rightarrow>
                  (case alloc s1 of
                     (False, s2) \<Rightarrow> (None, s2)
                   | (True, s2) \<Rightarrow>
                       (Some (Key (Some n) None 0 [] 0 [] 0
                                (word_of_int (current_level s1)) modif'), s2))))"

text \<open>\<^verbatim>\<open>touch_key\<close>; the level is a \<^verbatim>\<open>short\<close>, compared as an int and stored back.\<close>

definition touch_key :: "key \<Rightarrow> server \<Rightarrow> key" where
  "touch_key key s =
     set_level (word_of_int (max (sint (level key)) (current_level s)))
       (set_modif (now s) key)"

definition grow_subkeys :: "key \<Rightarrow> server \<Rightarrow> bool \<times> key \<times> server" where
  "grow_subkeys key s =
     (if nb_subkeys key \<noteq> 0 then
        (case alloc s of
           (False, s1) \<Rightarrow> (False, key, set_error ERROR_OUTOFMEMORY s1)
         | (True, s1) \<Rightarrow>
             (True, set_nb_subkeys (nb_subkeys key + nb_subkeys key div 2) key, s1))
      else
        (case mem_alloc s of
           (False, s1) \<Rightarrow> (False, key, s1)
         | (True, s1) \<Rightarrow> (True, set_nb_subkeys MIN_VALUES key, s1)))"

text \<open>
  \<^verbatim>\<open>alloc_subkey\<close>: on success the new key stands at \<open>index\<close> of the parent's array.
\<close>

definition insert_at :: "nat \<Rightarrow> 'a \<Rightarrow> 'a list \<Rightarrow> 'a list" where
  "insert_at i x xs = take i xs @ x # drop i xs"

definition remove_at :: "nat \<Rightarrow> 'a list \<Rightarrow> 'a list" where
  "remove_at i xs = take i xs @ drop (Suc i) xs"

definition alloc_subkey ::
  "key \<Rightarrow> WCHAR list \<Rightarrow> int \<Rightarrow> int \<Rightarrow> server \<Rightarrow> bool \<times> key \<times> server" where
  "alloc_subkey parent nm index modif' s =
     (case (if last_subkey parent + 1 = nb_subkeys parent then grow_subkeys parent s
            else (True, parent, s)) of
        (False, parent1, s1) \<Rightarrow> (False, parent1, s1)
      | (True, parent1, s1) \<Rightarrow>
          (case alloc_key (Some nm) modif' s1 of
             (None, s2) \<Rightarrow> (False, parent1, s2)
           | (Some key, s2) \<Rightarrow>
               (True, set_subkeys (insert_at (nat index) key (subkeys parent1)) parent1, s2)))"

text \<open>
  \<^verbatim>\<open>free_subkey\<close>: \<open>None\<close> when an assertion fails, else the parent and the removed
  key. After the removal, the source reads and writes the array size through \<^verbatim>\<open>key\<close>,
  the removed key.
\<close>

definition free_subkey :: "key \<Rightarrow> int \<Rightarrow> server \<Rightarrow> (key \<times> key \<times> server) option" where
  "free_subkey parent index s =
     (if 0 \<le> index \<and> index \<le> last_subkey parent then
        (let key = subkeys parent ! nat index;
             parent1 = set_subkeys (remove_at (nat index) (subkeys parent)) parent;
             key1 = set_flags (flags key OR KEY_DELETED) key;
             nb = nb_subkeys key1
         in if nb > MIN_SUBKEYS \<and> last_subkey key1 < nb div 2 then
              (let nb1 = nb - nb div 3;
                   nb2 = (if nb1 < MIN_SUBKEYS then MIN_SUBKEYS else nb1)
               in case alloc s of
                    (False, s1) \<Rightarrow> Some (parent1, key1, s1)
                  | (True, s1) \<Rightarrow> Some (parent1, set_nb_subkeys nb2 key1, s1))
            else Some (parent1, key1, s))
      else None)"

text \<open>
  \<^verbatim>\<open>find_subkey\<close>: the binary search between \<open>min\<close> and \<open>max\<close>; the result is whether
  the name was found and \<^verbatim>\<open>*index\<close>. Only a root key has no name, and a root key is
  no subkey.
\<close>

definition key_name :: "key \<Rightarrow> WCHAR list" where
  "key_name k = (case name k of None \<Rightarrow> [] | Some n \<Rightarrow> n)"

function find_subkey_loop :: "key list \<Rightarrow> WCHAR list \<Rightarrow> int \<Rightarrow> int \<Rightarrow> bool \<times> int" where
  "find_subkey_loop sk nm min' max' =
     (if min' \<le> max' then
        (let i = (min' + max') div 2;
             res = strcmpiW (key_name (sk ! nat i)) nm
         in if res = 0 then (True, i)
            else if res > 0 then find_subkey_loop sk nm min' (i - 1)
            else find_subkey_loop sk nm (i + 1) max')
      else (False, min'))"
  by pat_completeness auto
termination
  by (relation "measure (\<lambda>(sk, nm, min', max'). nat (max' - min' + 1))") auto

declare find_subkey_loop.simps [simp del]


definition find_subkey :: "key \<Rightarrow> WCHAR list \<Rightarrow> bool \<times> int" where
  "find_subkey key nm = find_subkey_loop (subkeys key) nm 0 (last_subkey key)"

subsection \<open>create_key\<close>

text \<open>
  Modelled from the spec: \<^verbatim>\<open>REG_OPTION_VOLATILE\<close> comes from the Windows headers,
  not under src/.
\<close>

definition REG_OPTION_VOLATILE :: "32 word" where "REG_OPTION_VOLATILE = 1"

text \<open>
  What \<^verbatim>\<open>create_key\<close> leaves behind: \<open>Aborted\<close> when an assertion failed; \<open>Failed\<close>
  with the tree and the state when it returned \<^verbatim>\<open>NULL\<close>; \<open>Done\<close> with the indices
  that lead from the base key to the key returned, \<^verbatim>\<open>*created\<close>, the tree and the
  state.
\<close>

datatype created = Aborted | Failed key server | Done "nat list" bool key server

text \<open>Label \<^verbatim>\<open>done\<close>: the class, when one is given, is duplicated into the key.\<close>

definition attach_class :: "WCHAR list option \<Rightarrow> key \<Rightarrow> server \<Rightarrow> key \<times> server" where
  "attach_class cls key s =
     (case cls of
        None \<Rightarrow> (key, s)
      | Some c \<Rightarrow>
          (case alloc s of
             (True, s1) \<Rightarrow> (set_kclass (Some c) key, s1)
           | (False, s1) \<Rightarrow> (set_kclass None key, s1)))"

text \<open>
  The second loop of \<^verbatim>\<open>create_key\<close>, on a key just allocated and the tokens that
  remain: the flags are set, and the next token is allocated at index 0 of the new key.
  \<open>None\<close> when an allocation failed.
\<close>

fun create_rest ::
  "key \<Rightarrow> WCHAR list list \<Rightarrow> 16 word \<Rightarrow> int \<Rightarrow> WCHAR list option \<Rightarrow> server
   \<Rightarrow> nat list option \<times> key \<times> server" where
  "create_rest key [] fl modif' cls s =
     (case attach_class cls (set_flags (flags key OR fl) key) s of
        (key1, s1) \<Rightarrow> (Some [], key1, s1))"
| "create_rest key (t # ts) fl modif' cls s =
     (case alloc_subkey (set_flags (flags key OR fl) key) t 0 modif' s of
        (False, key1, s1) \<Rightarrow> (None, key1, s1)
      | (True, key1, s1) \<Rightarrow>
          (case create_rest (subkeys key1 ! 0) ts fl modif' cls s1 of
             (r, sub, s2) \<Rightarrow>
               (map_option (\<lambda>p. 0 # p) r, set_subkeys ((subkeys key1)[0 := sub]) key1, s2)))"

text \<open>
  The exit of \<^verbatim>\<open>create_key\<close> after a failed allocation:
  \<^verbatim>\<open>if (base_idx != -1) free_subkey( base, base_idx ); return NULL;\<close>
\<close>

definition undo_create :: "key \<Rightarrow> int \<Rightarrow> server \<Rightarrow> created" where
  "undo_create base base_idx s =
     (if base_idx \<noteq> - 1 then
        (case free_subkey base base_idx s of
           None \<Rightarrow> Aborted
         | Some (base1, removed, s1) \<Rightarrow> Failed base1 s1)
      else Failed base s)"

text \<open>
  The first loop of \<^verbatim>\<open>create_key\<close> and what follows it: the walk goes down as long as
  \<^verbatim>\<open>find_subkey\<close> finds the token; at the first token that is missing, that key is
  \<^verbatim>\<open>base\<close> and the index of the search is \<^verbatim>\<open>base_idx\<close>.
\<close>

fun create_walk ::
  "key \<Rightarrow> WCHAR list list \<Rightarrow> 16 word \<Rightarrow> int \<Rightarrow> WCHAR list option \<Rightarrow> server \<Rightarrow> created" where
  "create_walk key [] fl modif' cls s =
     (case attach_class cls key s of (key1, s1) \<Rightarrow> Done [] False key1 s1)"
| "create_walk key (t # ts) fl modif' cls s =
     (case find_subkey key t of
        (True, index) \<Rightarrow>
          (case create_walk (subkeys key ! nat index) ts fl modif' cls s of
             Aborted \<Rightarrow> Aborted
           | Failed sub s1 \<Rightarrow>
               Failed (set_subkeys ((subkeys key)[nat index := sub]) key) s1
           | Done p c sub s1 \<Rightarrow>
               Done (nat index # p) c (set_subkeys ((subkeys key)[nat index := sub]) key) s1)
      | (False, index) \<Rightarrow>
          (case alloc_subkey key t index modif' s of
             (False, base, s1) \<Rightarrow> undo_create base index s1
           | (True, base, s1) \<Rightarrow>
               (case create_rest (subkeys base ! nat index) ts fl modif' cls s1 of
                  (Some p, sub, s2) \<Rightarrow>
                    Done (nat index # p) True
                      (set_subkeys ((subkeys base)[nat index := sub]) base) s2
                | (None, sub, s2) \<Rightarrow>
                    undo_create (set_subkeys ((subkeys base)[nat index := sub]) base)
                      index s2)))"

definition create_key ::
  "key \<Rightarrow> WCHAR list \<Rightarrow> nat \<Rightarrow> WCHAR list option \<Rightarrow> 32 word \<Rightarrow> int \<Rightarrow> server \<Rightarrow> created"
  where
  "create_key key nm maxlen cls options modif' s =
     (if flags key AND KEY_DELETED \<noteq> 0 then Failed key (set_error ERROR_KEY_DELETED s)
      else if options AND REG_OPTION_VOLATILE \<noteq> 0 then
        create_walk key (path_tokens (init_path nm maxlen)) KEY_VOLATILE modif' cls s
      else if flags key AND KEY_VOLATILE \<noteq> 0 then
        Failed key (set_error ERROR_CHILD_MUST_BE_VOLATILE s)
      else create_walk key (path_tokens (init_path nm maxlen)) 0 modif' cls s)"

subsection \<open>Values\<close>

definition grow_values :: "key \<Rightarrow> server \<Rightarrow> bool \<times> key \<times> server" where
  "grow_values key s =
     (if nb_values key \<noteq> 0 then
        (case alloc s of
           (False, s1) \<Rightarrow> (False, key, set_error ERROR_OUTOFMEMORY s1)
         | (True, s1) \<Rightarrow>
             (True, set_nb_values (nb_values key + nb_values key div 2) key, s1))
      else
        (case mem_alloc s of
           (False, s1) \<Rightarrow> (False, key, s1)
         | (True, s1) \<Rightarrow> (True, set_nb_values MIN_VALUES key, s1)))"

function find_value_loop :: "key_value list \<Rightarrow> WCHAR list \<Rightarrow> int \<Rightarrow> int \<Rightarrow> bool \<times> int" where
  "find_value_loop vs nm min' max' =
     (if min' \<le> max' then
        (let i = (min' + max') div 2;
             res = strcmpiW (vname (vs ! nat i)) nm
         in if res = 0 then (True, i)
            else if res > 0 then find_value_loop vs nm min' (i - 1)
            else find_value_loop vs nm (i + 1) max')
      else (False, min'))"
  by pat_completeness auto
termination
  by (relation "measure (\<lambda>(vs, nm, min', max'). nat (max' - min' + 1))") auto

declare find_value_loop.simps [simp del]


definition find_value :: "key \<Rightarrow> WCHAR list \<Rightarrow> bool \<times> int" where
  "find_value key nm = find_value_loop (kvalues key) nm 0 (last_value key)"

text \<open>
  \<^verbatim>\<open>insert_value\<close>: the index of the value found or inserted, \<open>None\<close> for \<^verbatim>\<open>NULL\<close>.
  A new value gets its name, length 0 and no data; the source leaves its type as the
  slot held it, and every caller that goes on writes the type, so the model puts 0.
\<close>

definition insert_value :: "key \<Rightarrow> WCHAR list \<Rightarrow> server \<Rightarrow> int option \<times> key \<times> server" where
  "insert_value key nm s =
     (case find_value key nm of
        (True, index) \<Rightarrow> (Some index, key, s)
      | (False, index) \<Rightarrow>
          (case (if last_value key + 1 = nb_values key then grow_values key s
                 else (True, key, s)) of
             (False, key1, s1) \<Rightarrow> (None, key1, s1)
           | (True, key1, s1) \<Rightarrow>
               (case alloc s1 of
                  (False, s2) \<Rightarrow> (None, key1, s2)
                | (True, s2) \<Rightarrow>
                    (Some index,
                     set_kvalues
                       (insert_at (nat index)
                          \<lparr>vname = nm, vtype = 0, vlen = 0, vdata = None\<rparr> (kvalues key1))
                       key1,
                     s2))))"

text \<open>
  \<^verbatim>\<open>set_value\<close>; \<open>datalen\<close> is the number of bytes to copy from \<open>data\<close>, the
  request's buffer.
\<close>

definition set_value ::
  "key \<Rightarrow> WCHAR list \<Rightarrow> 32 word \<Rightarrow> nat \<Rightarrow> byte list \<Rightarrow> server \<Rightarrow> key \<times> server" where
  "set_value key nm type datalen data s =
     (case (if datalen \<noteq> 0 then
              (case mem_alloc s of
                 (False, s1) \<Rightarrow> (False, None, s1)
               | (True, s1) \<Rightarrow> (True, Some (take datalen data), s1))
            else (True, None, s)) of
        (False, ptr, s1) \<Rightarrow> (key, s1)
      | (True, ptr, s1) \<Rightarrow>
          (case insert_value key nm s1 of
             (None, key1, s2) \<Rightarrow> (key1, free_data ptr s2)
           | (Some index, key1, s2) \<Rightarrow>
               (let v = kvalues key1 ! nat index;
                    s3 = free_data (vdata v) s2;
                    v1 = v\<lparr>vtype := type, vlen := datalen, vdata := ptr\<rparr>
                in (touch_key (set_kvalues ((kvalues key1)[nat index := v1]) key1) s3, s3))))"

section \<open>The text format: strings\<close>

text \<open>
  A file is the list of its bytes, as \<^verbatim>\<open>char\<close>; a C string is the list of its
  characters before the terminating nul. \<^verbatim>\<open>char\<close> is signed, as on the platforms the
  server is built for: a character of code 128 or more is a negative number.
\<close>

text \<open>
  The result of a parser of a line: what it returns; \<open>Malformed\<close> for the result -1;
  \<open>Overrun\<close> when the source steps over the terminating nul of the line and reads on,
  so that what it does next is not given by the line. A function that calls the parser
  has then no result: it gives \<open>None\<close>, as it does for a call that does not return.
\<close>

datatype 'a parsed = Parsed 'a | Malformed | Overrun

definition char_int :: "char \<Rightarrow> int" where
  "char_int c = (if (of_char c :: nat) < 128 then int (of_char c) else int (of_char c) - 256)"

text \<open>The cast \<^verbatim>\<open>(WCHAR)c\<close> of a \<^verbatim>\<open>char\<close>.\<close>

definition wchar_of_char :: "char \<Rightarrow> WCHAR" where
  "wchar_of_char c = word_of_int (char_int c)"

text \<open>The cast \<^verbatim>\<open>(char)w\<close> of a \<^verbatim>\<open>WCHAR\<close>.\<close>

definition char_of_wchar :: "WCHAR \<Rightarrow> char" where
  "char_of_wchar w = char_of (unat w)"

definition isdigit :: "char \<Rightarrow> bool" where
  "isdigit c = (0x30 \<le> (of_char c :: nat) \<and> (of_char c :: nat) \<le> 0x39)"

definition isxdigit :: "char \<Rightarrow> bool" where
  "isxdigit c =
     (isdigit c \<or> (0x41 \<le> (of_char c :: nat) \<and> (of_char c :: nat) \<le> 0x46)
      \<or> (0x61 \<le> (of_char c :: nat) \<and> (of_char c :: nat) \<le> 0x66))"

definition isoctal :: "char \<Rightarrow> bool" where
  "isoctal c = (0x30 \<le> (of_char c :: nat) \<and> (of_char c :: nat) \<le> 0x37)"

definition isspace :: "char \<Rightarrow> bool" where
  "isspace c = ((of_char c :: nat) = 0x20 \<or> (0x09 \<le> (of_char c :: nat) \<and> (of_char c :: nat) \<le> 0x0D))"

definition tolower :: "char \<Rightarrow> char" where
  "tolower c =
     (if 0x41 \<le> (of_char c :: nat) \<and> (of_char c :: nat) \<le> 0x5A then char_of (of_char c + 0x20 :: nat)
      else c)"

text \<open>\<^verbatim>\<open>to_hex\<close>, the value of a hexadecimal digit.\<close>

definition to_hex :: "char \<Rightarrow> nat" where
  "to_hex ch = (if isdigit ch then of_char ch - 0x30 else of_char (tolower ch) - 0x61 + 10)"

subsection \<open>printf conversions\<close>

definition digit_char :: "nat \<Rightarrow> char" where
  "digit_char d = ''0123456789abcdef'' ! d"

text \<open>The digits of \<open>n\<close> in base \<open>b\<close>, the most significant first.\<close>

function digits :: "nat \<Rightarrow> nat \<Rightarrow> nat list" where
  "digits b n = (if n < b \<or> b < 2 then [n] else digits b (n div b) @ [n mod b])"
  by pat_completeness auto
termination
  by (relation "measure snd") auto

declare digits.simps [simp del]


definition zero_pad :: "nat \<Rightarrow> string \<Rightarrow> string" where
  "zero_pad w str = replicate (w - length str) CHR ''0'' @ str"

text \<open>\<^verbatim>\<open>%x\<close>, \<^verbatim>\<open>%o\<close> and \<^verbatim>\<open>%u\<close> of an unsigned number, and \<^verbatim>\<open>%d\<close> of a signed one.\<close>

definition fmt_x :: "nat \<Rightarrow> string" where
  "fmt_x n = map digit_char (digits 16 n)"

definition fmt_o :: "nat \<Rightarrow> string" where
  "fmt_o n = map digit_char (digits 8 n)"

definition fmt_u :: "nat \<Rightarrow> string" where
  "fmt_u n = map digit_char (digits 10 n)"

definition fmt_d :: "int \<Rightarrow> string" where
  "fmt_d i = (if i < 0 then CHR ''-'' # fmt_u (nat (- i)) else fmt_u (nat i))"

subsection \<open>dump_strW\<close>

definition bslash :: char where "bslash = CHR 0x5C"
definition dquote :: char where "dquote = CHR 0x22"
definition newline :: char where "newline = CHR 0x0A"

definition escapes :: string where
  "escapes = ''.......abtnvfr.............e....''"

text \<open>\<^verbatim>\<open>len > 1 && P(str[1])\<close>, on the code units that follow the current one.\<close>

definition next_is :: "(WCHAR \<Rightarrow> bool) \<Rightarrow> WCHAR list \<Rightarrow> bool" where
  "next_is P cs = (case cs of [] \<Rightarrow> False | d # ds \<Rightarrow> P d)"

text \<open>
  \<^verbatim>\<open>dump_strW\<close> on the \<open>len\<close> code units of \<open>str\<close>: the text written to the file.
  The count the source returns is the length of that text.
\<close>

fun dump_strW :: "WCHAR list \<Rightarrow> char \<Rightarrow> char \<Rightarrow> string" where
  "dump_strW [] e0 e1 = []"
| "dump_strW (c # cs) e0 e1 =
     (if c > 127 then
        (if next_is (\<lambda>d. d < 128 \<and> isxdigit (char_of_wchar d)) cs
         then bslash # CHR ''x'' # zero_pad 4 (fmt_x (unat c))
         else bslash # CHR ''x'' # fmt_x (unat c)) @ dump_strW cs e0 e1
      else if c < 32 then
        (if c = 0 \<and> cs = [] then dump_strW cs e0 e1
         else if escapes ! unat c \<noteq> CHR ''.'' then
           bslash # escapes ! unat c # dump_strW cs e0 e1
         else if next_is (\<lambda>d. 0x30 \<le> d \<and> d \<le> 0x37) cs then
           bslash # zero_pad 3 (fmt_o (unat c)) @ dump_strW cs e0 e1
         else bslash # fmt_o (unat c) @ dump_strW cs e0 e1)
      else
        (if c = 0x5C \<or> uint c = char_int e0 \<or> uint c = char_int e1 then [bslash] else [])
        @ char_of_wchar c # dump_strW cs e0 e1)"

subsection \<open>parse_strW\<close>

text \<open>Up to \<open>n\<close> more hexadecimal digits, added to the value \<open>v\<close>.\<close>

fun hex_more :: "nat \<Rightarrow> WCHAR \<Rightarrow> string \<Rightarrow> WCHAR \<times> string" where
  "hex_more 0 v p = (v, p)"
| "hex_more (Suc n) v [] = (v, [])"
| "hex_more (Suc n) v (c # r) =
     (if isxdigit c then hex_more n (v * 16 + of_nat (to_hex c)) r else (v, c # r))"

text \<open>Up to \<open>n\<close> more octal digits.\<close>

fun oct_more :: "nat \<Rightarrow> WCHAR \<Rightarrow> string \<Rightarrow> WCHAR \<times> string" where
  "oct_more 0 v p = (v, p)"
| "oct_more (Suc n) v [] = (v, [])"
| "oct_more (Suc n) v (c # r) =
     (if isoctal c then oct_more n (v * 8 + of_nat (of_char c - 0x30)) r else (v, c # r))"

text \<open>
  The \<^verbatim>\<open>switch\<close> of \<^verbatim>\<open>parse_strW\<close>, on the text after a backslash: the code unit
  and the text that remains. When the backslash ends the line, the \<^verbatim>\<open>default\<close> branch
  stores the nul and steps over it: the result is \<open>None\<close>, and the cursor is behind the
  terminator.
\<close>

fun parse_escape :: "string \<Rightarrow> (WCHAR \<times> string) option" where
  "parse_escape [] = None"
| "parse_escape (c # r) =
     Some
       (if c = CHR ''a'' then (0x07, r)
        else if c = CHR ''b'' then (0x08, r)
        else if c = CHR ''e'' then (0x1B, r)
        else if c = CHR ''f'' then (0x0C, r)
        else if c = CHR ''n'' then (0x0A, r)
        else if c = CHR ''r'' then (0x0D, r)
        else if c = CHR ''t'' then (0x09, r)
        else if c = CHR ''v'' then (0x0B, r)
        else if c = CHR ''x'' then
          (case r of
             [] \<Rightarrow> (0x78, r)
           | d # r' \<Rightarrow> if isxdigit d then hex_more 3 (of_nat (to_hex d)) r' else (0x78, r))
        else if isoctal c then oct_more 2 (of_nat (of_char c - 0x30)) r
        else (wchar_of_char c, r))"

text \<open>
  One step of the loop of \<^verbatim>\<open>parse_strW\<close>, on a text that is not empty: \<open>None\<close> when
  the cursor has stepped over the terminator.
\<close>

definition parse_char :: "string \<Rightarrow> (WCHAR \<times> string) option" where
  "parse_char p =
     (case p of
        [] \<Rightarrow> None
      | c # r \<Rightarrow> if c \<noteq> bslash then Some (wchar_of_char c, r) else parse_escape r)"

lemma hex_more_length: "length (snd (hex_more n v p)) \<le> length p"
  by (induction n v p rule: hex_more.induct) (auto intro: le_SucI)

lemma oct_more_length: "length (snd (oct_more n v p)) \<le> length p"
  by (induction n v p rule: oct_more.induct) (auto intro: le_SucI)

lemma parse_escape_length: "parse_escape p = Some (w, p') \<Longrightarrow> length p' \<le> length p"
proof (cases p)
  case Nil
  assume "parse_escape p = Some (w, p')"
  with Nil show ?thesis by simp
next
  case (Cons c r)
  assume a: "parse_escape p = Some (w, p')"
  have "length (snd (hex_more 3 v q)) \<le> Suc (length q)" for v q
    using hex_more_length [of 3 v q] by simp
  moreover have "length (snd (oct_more 2 v q)) \<le> Suc (length q)" for v q
    using oct_more_length [of 2 v q] by simp
  ultimately have "length (snd (the (parse_escape p))) \<le> length p" using Cons
    by (auto split: list.splits intro: le_SucI)
  with a show ?thesis by simp
qed

lemma parse_char_length: "parse_char p = Some (w, p') \<Longrightarrow> length p' < length p"
  using parse_escape_length [of "tl p" w p']
  by (cases p) (auto simp: parse_char_def less_Suc_eq_le split: if_splits)

text \<open>
  The loop of \<^verbatim>\<open>parse_strW\<close>: \<open>len\<close> is the size of the destination in bytes,
  \<open>dest\<close> the code units stored so far, \<open>count\<close> the bytes counted, \<open>n\<close> the characters
  read. The text ends at its end or at a nul in it. The result is the code units stored
  before the terminating nul, the new \<^verbatim>\<open>*len\<close>, and the number of characters read,
  the end character included. After a backslash that ends the text the source checks
  the count and then reads on behind the terminator.
\<close>

function parse_strW_loop ::
  "nat \<Rightarrow> char \<Rightarrow> string \<Rightarrow> WCHAR list \<Rightarrow> nat \<Rightarrow> nat \<Rightarrow> (WCHAR list \<times> nat \<times> nat) parsed"
  where
  "parse_strW_loop len endchar p dest count n =
     (case p of
        [] \<Rightarrow> Malformed
      | c # r \<Rightarrow>
          if c = CHR 0x00 then Malformed
          else if c = endchar then Parsed (dest, count, n + 1)
          else if count + 2 > len then Malformed
          else
            (case parse_char p of
               None \<Rightarrow> Overrun
             | Some (w, p') \<Rightarrow>
                 parse_strW_loop len endchar p' (dest @ [w]) (count + 2)
                   (n + (length p - length p'))))"
  by pat_completeness auto
termination
  by (relation "measure (\<lambda>(len, endchar, p, dest, count, n). length p)")
     (auto dest: parse_char_length)

declare parse_strW_loop.simps [simp del]


definition parse_strW :: "nat \<Rightarrow> string \<Rightarrow> char \<Rightarrow> (WCHAR list \<times> nat \<times> nat) parsed" where
  "parse_strW len src endchar = parse_strW_loop len endchar src [] 2 0"

subsection \<open>Value types and data bytes\<close>

text \<open>
  Modelled from the spec: the value types come from the Windows headers, not under
  src/; the spec gives \<^verbatim>\<open>EXPAND_SZ\<close> as 2 and \<^verbatim>\<open>MULTI_SZ\<close> as 7.
\<close>

definition REG_SZ :: "32 word" where "REG_SZ = 1"
definition REG_EXPAND_SZ :: "32 word" where "REG_EXPAND_SZ = 2"
definition REG_BINARY :: "32 word" where "REG_BINARY = 3"
definition REG_DWORD :: "32 word" where "REG_DWORD = 4"
definition REG_MULTI_SZ :: "32 word" where "REG_MULTI_SZ = 7"

text \<open>
  Memory is little-endian: the bytes of a code unit and of a \<^verbatim>\<open>DWORD\<close>, and the code
  units that \<open>n\<close> bytes of data hold.
\<close>

definition wchar_bytes :: "WCHAR \<Rightarrow> byte list" where
  "wchar_bytes w = [ucast w, ucast (drop_bit 8 w)]"

definition dword_bytes :: "32 word \<Rightarrow> byte list" where
  "dword_bytes w = [ucast w, ucast (drop_bit 8 w), ucast (drop_bit 16 w), ucast (drop_bit 24 w)]"

fun bytes_wchars :: "byte list \<Rightarrow> WCHAR list" where
  "bytes_wchars (b0 # b1 # bs) = (ucast b0 OR push_bit 8 (ucast b1)) # bytes_wchars bs"
| "bytes_wchars bs = []"

definition bytes_dword :: "byte list \<Rightarrow> 32 word" where
  "bytes_dword bs =
     (case bs of
        b0 # b1 # b2 # b3 # r \<Rightarrow>
          ucast b0 OR push_bit 8 (ucast b1) OR push_bit 16 (ucast b2) OR push_bit 24 (ucast b3)
      | _ \<Rightarrow> 0)"

section \<open>The text format: saving\<close>

text \<open>
  \<^verbatim>\<open>dump_path\<close>: \<open>ancs\<close> is the chain of \<^verbatim>\<open>parent\<close> pointers of the key, the nearest
  first, and \<open>lbl\<close> the name that the table \<^verbatim>\<open>root_key_names\<close> has for the key
  without a name at the top of the chain (nothing when it is not in \<^verbatim>\<open>root_keys\<close>).
\<close>

fun dump_path :: "string \<Rightarrow> key list \<Rightarrow> key \<Rightarrow> string" where
  "dump_path lbl [] key =
     (case name key of
        None \<Rightarrow> lbl
      | Some n \<Rightarrow> ''?????'' @ [bslash, bslash] @ dump_strW n CHR ''['' CHR '']'')"
| "dump_path lbl (p # ps) key =
     dump_path lbl ps p @
     (case name key of
        None \<Rightarrow> lbl
      | Some n \<Rightarrow> [bslash, bslash] @ dump_strW n CHR ''['' CHR '']'')"

text \<open>
  The loop of \<^verbatim>\<open>dump_value\<close> over the bytes that remain; \<open>count\<close> is the column
  counter before the byte.
\<close>

fun dump_hex :: "byte list \<Rightarrow> nat \<Rightarrow> string" where
  "dump_hex [] count = []"
| "dump_hex [b] count = zero_pad 2 (fmt_x (unat b))"
| "dump_hex (b # b' # bs) count =
     zero_pad 2 (fmt_x (unat b)) @ '','' @
     (if count + 3 > 76 then [bslash, newline] @ ''  '' @ dump_hex (b' # bs) 2
      else dump_hex (b' # bs) (count + 3))"

definition value_bytes :: "key_value \<Rightarrow> byte list" where
  "value_bytes v = (case vdata v of None \<Rightarrow> [] | Some d \<Rightarrow> take (vlen v) d)"

definition dump_value :: "key_value \<Rightarrow> string" where
  "dump_value v =
     (if vname v \<noteq> [] then [dquote] @ dump_strW (vname v) dquote dquote @ [dquote] @ ''=''
      else ''@='') @
     (if vtype v = REG_SZ \<or> vtype v = REG_EXPAND_SZ \<or> vtype v = REG_MULTI_SZ then
        (if vtype v \<noteq> REG_SZ then ''str('' @ fmt_d (sint (vtype v)) @ ''):'' else []) @
        [dquote] @
        (case vdata v of
           None \<Rightarrow> []
         | Some d \<Rightarrow> dump_strW (take (vlen v div 2) (bytes_wchars d)) dquote dquote) @
        [dquote]
      else if vtype v = REG_DWORD \<and> vlen v = 4 then
        ''dword:'' @ zero_pad 8 (fmt_x (unat (bytes_dword (value_bytes v))))
      else
        (if vtype v = REG_BINARY then ''hex:'' else ''hex('' @ fmt_x (unat (vtype v)) @ ''):'') @
        dump_hex (value_bytes v)
          ((if vname v \<noteq> [] then length (dump_strW (vname v) dquote dquote) + 3 else 2) +
           (if vtype v = REG_BINARY then 4 else length (fmt_x (unat (vtype v))) + 6))) @
     [newline]"

text \<open>\<^verbatim>\<open>save_subkeys\<close>, with the saving level.\<close>

fun save_subkeys :: "string \<Rightarrow> key list \<Rightarrow> int \<Rightarrow> key \<Rightarrow> string" where
  "save_subkeys lbl ancs sl (Key n c ns sk nv vs f l m) =
     (if f AND KEY_VOLATILE \<noteq> 0 then []
      else
        (if sint l \<ge> sl \<and> (vs \<noteq> [] \<or> sk = []) then
           [newline] @ ''['' @ dump_path lbl ancs (Key n c ns sk nv vs f l m) @ ''] '' @
           fmt_d m @ [newline] @ concat (map dump_value vs)
         else []) @
        concat (map (save_subkeys lbl (Key n c ns sk nv vs f l m # ancs) sl) sk))"

subsection \<open>The old format\<close>

fun update_level :: "key \<Rightarrow> key" where
  "update_level (Key n c ns sk nv vs f l m) =
     Key n c ns (map update_level sk) nv vs f
       (word_of_int
          (fold (\<lambda>sub mx. if sint (level sub) > mx then sint (level sub) else mx)
             (map update_level sk) (sint l))) m"

fun save_string_v1 :: "WCHAR list \<Rightarrow> string" where
  "save_string_v1 [] = []"
| "save_string_v1 (c # cs) =
     (if c > 0x7F \<or> c = 0x0A \<or> c = 0x3D then
        bslash # CHR ''u'' # zero_pad 4 (fmt_x (unat c))
      else (if c = 0x5C then [bslash] else []) @ [char_of_wchar c])
     @ save_string_v1 cs"

definition save_value_v1 :: "nat \<Rightarrow> key_value \<Rightarrow> string" where
  "save_value_v1 nesting v =
     replicate nesting (CHR 0x09) @ save_string_v1 (vname v) @
     ''='' @ fmt_d (sint (vtype v)) @ '','' @ fmt_d 0 @ '','' @
     (if vtype v = REG_SZ \<or> vtype v = REG_EXPAND_SZ then
        (case vdata v of
           None \<Rightarrow> []
         | Some d \<Rightarrow> save_string_v1 (takeWhile (\<lambda>c. c \<noteq> 0) (bytes_wchars d)))
      else concat (map (\<lambda>b. zero_pad 2 (fmt_x (unat b))) (value_bytes v))) @
     [newline]"

fun save_subkeys_v1 :: "int \<Rightarrow> nat \<Rightarrow> key \<Rightarrow> string" where
  "save_subkeys_v1 sl nesting (Key n c ns sk nv vs f l m) =
     (if f AND KEY_VOLATILE \<noteq> 0 then []
      else if sint l < sl then []
      else
        concat (map (save_value_v1 nesting) vs) @
        concat (map (\<lambda>sub. replicate nesting (CHR 0x09) @ save_string_v1 (key_name sub) @
                         [newline] @ save_subkeys_v1 sl (Suc nesting) sub) sk))"

subsection \<open>save_registry\<close>

text \<open>
  \<^verbatim>\<open>save_registry\<close> for a handle that gives a file to write: the text written
  (\<open>None\<close> when nothing is, for a deleted key), the tree, whose levels the old format
  updates, and the state.
\<close>

definition save_registry ::
  "string \<Rightarrow> key list \<Rightarrow> key \<Rightarrow> server \<Rightarrow> string option \<times> key \<times> server" where
  "save_registry lbl ancs key s =
     (if flags key AND KEY_DELETED \<noteq> 0 then (None, key, set_error ERROR_KEY_DELETED s)
      else if saving_version s = 2 then
        (Some (''WINE REGISTRY Version '' @ fmt_d (saving_version s) @ [newline] @
               save_subkeys lbl ancs (saving_level s) key),
         key, s)
      else
        (Some (''WINE REGISTRY Version '' @ fmt_d (saving_version s) @ [newline] @
               save_subkeys_v1 (saving_level s) 0 (update_level key)),
         update_level key, s))"

section \<open>The text format: loading\<close>

subsection \<open>Reading lines\<close>

text \<open>
  \<^verbatim>\<open>struct file_load_info\<close>: the input not yet read, the line buffer as a C string and
  its allocated length, the line number, and the allocated length of the temporary
  buffer (what is parsed into it is passed on as a value). The input may hold any
  byte, the nul too.
\<close>

record file_load_info =
  info_file :: string
  info_buffer :: string
  info_len :: nat
  info_line :: nat
  info_tmplen :: nat

text \<open>At most \<open>k\<close> characters of the input, up to the first newline and with it.\<close>

fun take_line :: "nat \<Rightarrow> string \<Rightarrow> string" where
  "take_line 0 f = []"
| "take_line (Suc k) [] = []"
| "take_line (Suc k) (c # f) = (if c = newline then [c] else c # take_line k f)"

text \<open>\<^verbatim>\<open>fgets\<close> with room for \<open>n\<close> bytes: \<open>None\<close> at the end of the input.\<close>

definition fgets :: "nat \<Rightarrow> string \<Rightarrow> (string \<times> string) option" where
  "fgets n f =
     (if f = [] then None
      else Some (take_line (n - 1) f, drop (length (take_line (n - 1) f)) f))"

lemma take_line_length: "length (take_line k f) \<le> length f"
  by (induction k f rule: take_line.induct) auto

lemma take_line_nonempty: "0 < k \<Longrightarrow> f \<noteq> [] \<Longrightarrow> take_line k f \<noteq> []"
  by (cases k; cases f) auto

text \<open>A full line: the newline is cut off, and a carriage return before it.\<close>

definition chomp :: "string \<Rightarrow> string" where
  "chomp buf =
     (let b = butlast buf in if b \<noteq> [] \<and> last b = CHR 0x0D then butlast b else b)"

text \<open>
  \<^verbatim>\<open>strlen\<close> of the buffer after \<^verbatim>\<open>fgets\<close> has stored the bytes \<open>chunk\<close> behind
  the \<open>buf\<close> it held: the bytes before the first nul.
\<close>

definition seen :: "string \<Rightarrow> string" where
  "seen b = takeWhile (\<lambda>c. c \<noteq> CHR 0x00) b"

text \<open>
  The loop of \<^verbatim>\<open>read_next_line\<close>: \<open>buf\<close> is what the buffer holds of the line so
  far (\<open>pos\<close> is its length), \<open>len\<close> the length of the buffer. The length of the line
  is taken with \<^verbatim>\<open>strlen\<close>, so that a nul that was read ends the line and hides the
  bytes read behind it. The result is \<open>None\<close> for a call without a result: with a
  buffer of less than 2 bytes the source would go round without reading
  (\<^verbatim>\<open>load_keys\<close> starts with 4 bytes), and when the first byte read is a nul the
  source reads the byte before the buffer.
\<close>

function read_line_loop ::
  "string \<Rightarrow> nat \<Rightarrow> string \<Rightarrow> server \<Rightarrow> (int \<times> string \<times> nat \<times> string \<times> server) option" where
  "read_line_loop buf len f s =
     (if len < 2 then None
      else
        (case fgets (len - length buf) f of
           None \<Rightarrow> Some (if buf \<noteq> [] then 1 else 0, buf, len, f, s)
         | Some (chunk, f') \<Rightarrow>
             if seen (buf @ chunk) = [] then None
             else if last (seen (buf @ chunk)) = newline then
               Some (1, chomp (seen (buf @ chunk)), len, f', s)
             else if length (seen (buf @ chunk)) < len - 1 then
               Some (1, seen (buf @ chunk), len, f', s)
             else
               (case alloc s of
                  (False, s1) \<Rightarrow>
                    Some (- 1, seen (buf @ chunk), len, f', set_error ERROR_OUTOFMEMORY s1)
                | (True, s1) \<Rightarrow>
                    read_line_loop (seen (buf @ chunk)) (len + len div 2) f' s1)))"
  by pat_completeness auto
termination
proof (relation "measures [\<lambda>(buf, len, f, s). length f, \<lambda>(buf, len, f, s). length buf + 2 - len]")
  fix buf :: string and len :: nat and f :: string and s :: server
    and x2 :: "string \<times> string" and chunk f' :: string
    and x :: "bool \<times> server" and ok :: bool and s1 :: server
  assume len: "\<not> len < 2" and fg: "fgets (len - length buf) f = Some x2"
    and x2: "(chunk, f') = x2" and full: "\<not> length (seen (buf @ chunk)) < len - 1"
  from fg x2 have f: "f \<noteq> []" and c: "chunk = take_line (len - length buf - 1) f"
    and f': "f' = drop (length chunk) f"
    by (auto simp: fgets_def split: if_splits)
  have sl: "length (seen (buf @ chunk)) \<le> length buf + length chunk"
    unfolding seen_def using length_takeWhile_le [of _ "buf @ chunk"] by simp
  show "((seen (buf @ chunk), len + len div 2, f', s1), (buf, len, f, s))
        \<in> measures [\<lambda>(buf, len, f, s). length f, \<lambda>(buf, len, f, s). length buf + 2 - len]"
  proof (cases "chunk = []")
    case True
    have "\<not> 0 < len - length buf - 1"
    proof
      assume "0 < len - length buf - 1"
      from take_line_nonempty [OF this f] c True show False by simp
    qed
    with True f' len sl full show ?thesis by auto
  next
    case False
    with f' f have "length f' < length f" by (cases chunk) auto
    then show ?thesis by simp
  qed
qed simp

declare read_line_loop.simps [simp del]


definition read_next_line ::
  "file_load_info \<Rightarrow> server \<Rightarrow> (int \<times> file_load_info \<times> server) option" where
  "read_next_line info s =
     (case read_line_loop [] (info_len info) (info_file info) s of
        None \<Rightarrow> None
      | Some (r, buf, len, f, s1) \<Rightarrow>
          Some (r,
                info\<lparr>info_line := info_line info + 1,
                     info_buffer := (if r = 0 then info_buffer info else buf),
                     info_len := len, info_file := f\<rparr>,
                s1))"

definition get_file_tmp_space :: "file_load_info \<Rightarrow> nat \<Rightarrow> server \<Rightarrow> bool \<times> file_load_info \<times> server"
  where
  "get_file_tmp_space info size' s =
     (if info_tmplen info \<ge> size' then (True, info, s)
      else
        (case alloc s of
           (False, s1) \<Rightarrow> (False, info, set_error ERROR_OUTOFMEMORY s1)
         | (True, s1) \<Rightarrow> (True, info\<lparr>info_tmplen := size'\<rparr>, s1)))"

subsection \<open>Numbers\<close>

text \<open>The hexadecimal or decimal digits at the head of a text, added to \<open>v\<close>.\<close>

fun hex_run :: "int \<Rightarrow> string \<Rightarrow> int \<times> string" where
  "hex_run v [] = (v, [])"
| "hex_run v (c # r) =
     (if isxdigit c then hex_run (v * 16 + int (to_hex c)) r else (v, c # r))"

fun dec_run :: "int \<Rightarrow> string \<Rightarrow> int \<times> string" where
  "dec_run v [] = (v, [])"
| "dec_run v (c # r) =
     (if isdigit c then dec_run (v * 10 + int (of_char c - 0x30)) r else (v, c # r))"

text \<open>
  \<^verbatim>\<open>strtoul\<close> in base 16, with \<^verbatim>\<open>unsigned long\<close> of 32 bits: white space, a sign, an
  optional \<^verbatim>\<open>0x\<close>, digits; the result is the value and how far \<^verbatim>\<open>end\<close> is from the
  start (0 when there is no digit). A value out of range gives \<^verbatim>\<open>ULONG_MAX\<close>.
\<close>

definition strtoul16 :: "string \<Rightarrow> 32 word \<times> nat" where
  "strtoul16 str =
     (let p1 = dropWhile isspace str;
          neg = (case p1 of [] \<Rightarrow> False | c # r \<Rightarrow> c = CHR ''-'');
          p2 = (case p1 of [] \<Rightarrow> [] | c # r \<Rightarrow> if c = CHR ''-'' \<or> c = CHR ''+'' then r else p1);
          p3 = (case p2 of
                  c0 # cx # d # r \<Rightarrow>
                    if c0 = CHR ''0'' \<and> (cx = CHR ''x'' \<or> cx = CHR ''X'') \<and> isxdigit d then d # r
                    else p2
                | _ \<Rightarrow> p2)
      in case p3 of
           [] \<Rightarrow> (0, 0)
         | c # r \<Rightarrow>
             if isxdigit c then
               (case hex_run 0 p3 of
                  (v, rest) \<Rightarrow>
                    (if v \<ge> 4294967296 then - 1
                     else if neg then - (word_of_int v) else word_of_int v,
                     length str - length rest))
             else (0, 0))"

text \<open>
  \<^verbatim>\<open>sscanf( str, " %d", &modif )\<close>: the result of the call (1, 0 for a text that is no
  number, -1 for a text that ends before one) and the number read.
\<close>

definition sscanf_d :: "string \<Rightarrow> int \<times> int" where
  "sscanf_d str =
     (let p1 = dropWhile isspace str;
          neg = (case p1 of [] \<Rightarrow> False | c # r \<Rightarrow> c = CHR ''-'');
          p2 = (case p1 of [] \<Rightarrow> [] | c # r \<Rightarrow> if c = CHR ''-'' \<or> c = CHR ''+'' then r else p1)
      in if p1 = [] then (- 1, 0)
         else
           (case p2 of
              [] \<Rightarrow> (- 1, 0)
            | c # r \<Rightarrow>
                if isdigit c then
                  (1, if neg then - fst (dec_run 0 p2) else fst (dec_run 0 p2))
                else (0, 0)))"

subsection \<open>get_data_type\<close>

text \<open>
  The table of \<^verbatim>\<open>get_data_type\<close>, in its order; the result is the number of
  characters of the tag (0 when none matches), the type and the type to parse as.
\<close>

definition get_data_type :: "string \<Rightarrow> nat \<times> 32 word \<times> 32 word" where
  "get_data_type buffer =
     (if take 1 buffer = [dquote] then (1, REG_SZ, REG_SZ)
      else if take 5 buffer = ''str:'' @ [dquote] then (5, REG_SZ, REG_SZ)
      else if take 8 buffer = ''str(2):'' @ [dquote] then (8, REG_EXPAND_SZ, REG_SZ)
      else if take 8 buffer = ''str(7):'' @ [dquote] then (8, REG_MULTI_SZ, REG_SZ)
      else if take 4 buffer = ''hex:'' then (4, REG_BINARY, REG_BINARY)
      else if take 6 buffer = ''dword:'' then (6, REG_DWORD, REG_DWORD)
      else if take 4 buffer = ''hex('' then
        (case strtoul16 (drop 4 buffer) of
           (type, e) \<Rightarrow>
             if take 2 (drop (4 + e) buffer) = ''):'' then (4 + e + 2, type, REG_BINARY)
             else (0, type, REG_BINARY))
      else (0, 0, 0))"

subsection \<open>Keys and values from lines\<close>

text \<open>
  A key of the tree is named by the indices that lead to it from the key the load
  started at: the key at a path, and the tree with the key at a path replaced.
\<close>

fun key_at :: "nat list \<Rightarrow> key \<Rightarrow> key" where
  "key_at [] k = k"
| "key_at (i # p) k = key_at p (subkeys k ! i)"

fun put_at :: "nat list \<Rightarrow> key \<Rightarrow> key \<Rightarrow> key" where
  "put_at [] new k = new"
| "put_at (i # p) new k = set_subkeys ((subkeys k)[i := put_at p new (subkeys k ! i)]) k"

text \<open>
  The loop of \<^verbatim>\<open>load_key\<close> over the parsed path: it stops behind the first backslash,
  or at the first nul.
\<close>

fun skip_root :: "WCHAR list \<Rightarrow> WCHAR list" where
  "skip_root [] = []"
| "skip_root (c # cs) = (if c = 0 then c # cs else if c = backslash then cs else skip_root cs)"

text \<open>
  \<^verbatim>\<open>load_key\<close>: the path to the key created, \<open>None\<close> for \<^verbatim>\<open>NULL\<close>; the outer \<open>None\<close>
  is a call without a result (an assertion of \<^verbatim>\<open>create_key\<close> failed, or the parser
  left the line). When the
  text behind the bracket ends before a number, \<^verbatim>\<open>sscanf\<close> returns \<^verbatim>\<open>EOF\<close> and the
  source leaves \<^verbatim>\<open>modif\<close> unset; the model puts 0.
\<close>

definition load_key ::
  "key \<Rightarrow> string \<Rightarrow> file_load_info \<Rightarrow> server
   \<Rightarrow> (nat list option \<times> key \<times> file_load_info \<times> server) option" where
  "load_key base buffer info s =
     (case get_file_tmp_space info (length buffer * 2) s of
        (False, info1, s1) \<Rightarrow> Some (None, base, info1, s1)
      | (True, info1, s1) \<Rightarrow>
          (case parse_strW (length buffer * 2) buffer CHR '']'' of
             Overrun \<Rightarrow> None
           | Malformed \<Rightarrow> Some (None, base, info1, s1)
           | Parsed (dest, len, res) \<Rightarrow>
               (let modif' = (case sscanf_d (drop res buffer) of
                                (r, v) \<Rightarrow> if r = 0 then now s1 else if r = 1 then v else 0);
                    p = skip_root (dest @ [0])
                in case create_key base p (2 * length p) None 0 modif' s1 of
                     Aborted \<Rightarrow> None
                   | Failed base1 s2 \<Rightarrow> Some (None, base1, info1, s2)
                   | Done path c base1 s2 \<Rightarrow> Some (Some path, base1, info1, s2))))"

text \<open>
  \<^verbatim>\<open>sscanf( buf, "%x", &val )\<close> on the two characters copied by \<^verbatim>\<open>parse_hex\<close>, the
  first a hexadecimal digit: \<^verbatim>\<open>0x\<close> alone is no number and leaves \<open>val\<close> as it was.
\<close>

definition sscanf_x2 :: "char \<Rightarrow> string \<Rightarrow> nat \<Rightarrow> nat" where
  "sscanf_x2 c r val =
     (case r of
        [] \<Rightarrow> to_hex c
      | d # r' \<Rightarrow>
          if c = CHR ''0'' \<and> (d = CHR ''x'' \<or> d = CHR ''X'') then val
          else if isxdigit d then to_hex c * 16 + to_hex d
          else to_hex c)"

text \<open>
  The loop of \<^verbatim>\<open>parse_hex\<close>: the bytes, their count and the number of characters
  read. The source steps two characters on after each byte: when the digit is the last
  character of the line, that is a step over the terminator.
\<close>

function parse_hex_loop ::
  "nat \<Rightarrow> string \<Rightarrow> byte list \<Rightarrow> nat \<Rightarrow> nat \<Rightarrow> nat \<Rightarrow> (byte list \<times> nat \<times> nat) parsed" where
  "parse_hex_loop len p dest count val n =
     (case p of
        [] \<Rightarrow> Parsed (dest, count, n)
      | c # r \<Rightarrow>
          if isxdigit c then
            (if count \<ge> len then Malformed
             else
               (case r of
                  [] \<Rightarrow> Overrun
                | c' # r1 \<Rightarrow>
                    (case r1 of
                       [] \<Rightarrow>
                         parse_hex_loop len [] (dest @ [of_nat (sscanf_x2 c r val)]) (count + 1)
                           (sscanf_x2 c r val) (n + 2)
                     | d # r' \<Rightarrow>
                         if d = CHR '','' then
                           parse_hex_loop len r' (dest @ [of_nat (sscanf_x2 c r val)])
                             (count + 1) (sscanf_x2 c r val) (n + 3)
                         else
                           parse_hex_loop len (d # r') (dest @ [of_nat (sscanf_x2 c r val)])
                             (count + 1) (sscanf_x2 c r val) (n + 2))))
          else Parsed (dest, count, n))"
  by pat_completeness auto
termination
  by (relation "measure (\<lambda>(len, p, dest, count, val, n). length p)") auto

declare parse_hex_loop.simps [simp del]


definition parse_hex :: "nat \<Rightarrow> string \<Rightarrow> (byte list \<times> nat \<times> nat) parsed" where
  "parse_hex len buffer = parse_hex_loop len buffer [] 0 0 0"

text \<open>Reading a line never gives input back, and a line that was read used some of it.\<close>

lemma seen_no_nul: "CHR 0x00 \<notin> set b \<Longrightarrow> seen b = b"
  by (induction b) (auto simp: seen_def)

lemma seen_append: "CHR 0x00 \<notin> set a \<Longrightarrow> seen (a @ b) = a @ seen b"
  by (induction a) (auto simp: seen_def)

lemma seen_length: "length (seen b) \<le> length b"
  unfolding seen_def by (rule length_takeWhile_le)

lemma seen_nul [simp]: "CHR 0x00 \<notin> set (seen b)"
  unfolding seen_def by (auto dest: set_takeWhileD)

lemma read_line_loop_file:
  "read_line_loop buf len f s = Some (r, buf', len', f', s') \<Longrightarrow>
   length f' \<le> length f \<and> (r = 1 \<and> buf = [] \<longrightarrow> length f' < length f)"
proof (induction buf len f s rule: read_line_loop.induct)
  case (1 buf len f s)
  note eq = "1.prems" [unfolded read_line_loop.simps [of buf len f s]]
  from eq have len: "\<not> len < 2" by (auto split: if_splits)
  note eq0 = eq [unfolded eq_False [THEN iffD2, OF len] if_False]
  show ?case
  proof (cases "fgets (len - length buf) f")
    case None
    with eq0 show ?thesis by (auto split: if_splits)
  next
    case (Some x)
    obtain chunk f1 where x: "x = (chunk, f1)" by (cases x)
    from Some x have f: "f \<noteq> []" and c: "chunk = take_line (len - length buf - 1) f"
      and f1: "f1 = drop (length chunk) f"
      by (auto simp: fgets_def split: if_splits)
    have le: "length f1 \<le> length f" using f1 by simp
    have lt: "buf = [] \<Longrightarrow> length f1 < length f"
    proof -
      assume "buf = []"
      with len have "0 < len - length buf - 1" by simp
      from take_line_nonempty [OF this f] c have "chunk \<noteq> []" by simp
      with f1 f show ?thesis by (cases chunk) auto
    qed
    let ?b = "seen (buf @ chunk)"
    note eq1 = eq0 [unfolded Some x option.case prod.case]
    show ?thesis
    proof (cases "?b = []")
      case True
      with eq1 show ?thesis by simp
    next
      case ne: False
      note eq2 = eq1 [unfolded eq_False [THEN iffD2, OF ne] if_False]
      show ?thesis
      proof (cases "last ?b = newline")
        case True
        with eq2 le lt show ?thesis by auto
      next
        case nl: False
        note eq3 = eq2 [unfolded eq_False [THEN iffD2, OF nl] if_False]
        show ?thesis
        proof (cases "length ?b < len - 1")
          case True
          with eq3 le lt show ?thesis by auto
        next
          case full: False
          note eq4 = eq3 [unfolded eq_False [THEN iffD2, OF full] if_False]
          obtain ok s1 where a: "alloc s = (ok, s1)" by (cases "alloc s")
          show ?thesis
          proof (cases ok)
            case False
            with eq4 a le lt show ?thesis by auto
          next
            case True
            with eq4 a
            have rec: "read_line_loop ?b (len + len div 2) f1 s1 = Some (r, buf', len', f', s')"
              by simp
            from True have t: "ok = True" by simp
            have "length f' \<le> length f1"
              using "1.IH" [OF len Some x [symmetric] ne nl full a [symmetric] t rec] by simp
            with le lt show ?thesis by auto
          qed
        qed
      qed
    qed
  qed
qed

lemma read_next_line_file:
  "read_next_line info s = Some (r, info', s') \<Longrightarrow>
   length (info_file info') \<le> length (info_file info) \<and>
   (r = 1 \<longrightarrow> length (info_file info') < length (info_file info))"
  by (auto simp: read_next_line_def split: option.splits dest: read_line_loop_file)

lemma get_file_tmp_space_file:
  "get_file_tmp_space info n s = (ok, info', s') \<Longrightarrow> info_file info' = info_file info"
  by (auto simp: get_file_tmp_space_def split: if_splits prod.splits bool.splits)

text \<open>
  The loop of \<^verbatim>\<open>load_value\<close> for hexadecimal data, which goes on to the next line
  after a backslash: \<open>tmp\<close> holds the bytes so far. The result is whether the data was
  read (\<open>False\<close> stands for \<^verbatim>\<open>return 0\<close> and for \<^verbatim>\<open>goto error\<close>) and the bytes;
  \<open>None\<close> is a call without a result.
\<close>

function load_hex ::
  "byte list \<Rightarrow> string \<Rightarrow> file_load_info \<Rightarrow> server
   \<Rightarrow> (bool \<times> byte list \<times> file_load_info \<times> server) option" where
  "load_hex tmp buffer info s =
     (case get_file_tmp_space info (length tmp + (1 + length buffer div 3)) s of
        (False, info1, s1) \<Rightarrow> Some (False, tmp, info1, s1)
      | (True, info1, s1) \<Rightarrow>
          (case parse_hex (1 + length buffer div 3) buffer of
             Overrun \<Rightarrow> None
           | Malformed \<Rightarrow> Some (False, tmp, info1, s1)
           | Parsed (bytes, count, res) \<Rightarrow>
               (case dropWhile isspace (drop res buffer) of
                  [] \<Rightarrow> Some (True, tmp @ bytes, info1, s1)
                | c # r \<Rightarrow>
                    if c = bslash then
                      (case read_next_line info1 s1 of
                         None \<Rightarrow> None
                       | Some (rc, info2, s2) \<Rightarrow>
                           if rc = 1 then
                             load_hex (tmp @ bytes) (dropWhile isspace (info_buffer info2))
                               info2 s2
                           else Some (False, tmp @ bytes, info2, s2))
                    else Some (False, tmp @ bytes, info1, s1))))"
  by pat_completeness auto
termination
  by (relation "measure (\<lambda>(tmp, buffer, info, s). length (info_file info))")
     (auto dest!: get_file_tmp_space_file [OF sym] read_next_line_file)

declare load_hex.simps [simp del]


text \<open>
  The name that \<^verbatim>\<open>parse_value_name\<close> reads and the number of its characters: \<^verbatim>\<open>@\<close>
  is the empty name, any other first character is stepped over and the name is parsed
  up to a double quote (on an empty line that step is the step over the terminator).
  The name given to \<^verbatim>\<open>insert_value\<close> is the parsed text up to its first nul.
\<close>

definition value_name :: "string \<Rightarrow> (WCHAR list \<times> nat) parsed" where
  "value_name buffer =
     (if take 1 buffer = ''@'' then Parsed ([], 1)
      else if buffer = [] then Overrun
      else
        (case parse_strW (length buffer * 2) (drop 1 buffer) dquote of
           Overrun \<Rightarrow> Overrun
         | Malformed \<Rightarrow> Malformed
         | Parsed (dest, maxlen, res) \<Rightarrow> Parsed (takeWhile (\<lambda>c. c \<noteq> 0) dest, res + 1)))"

text \<open>
  \<^verbatim>\<open>parse_value_name\<close>: the index of the value found or inserted and the number of
  characters of the name with its \<^verbatim>\<open>=\<close>, or \<open>None\<close> for \<^verbatim>\<open>NULL\<close>; the outer \<open>None\<close>
  is a call without a result.
\<close>

definition parse_value_name ::
  "key \<Rightarrow> string \<Rightarrow> file_load_info \<Rightarrow> server
   \<Rightarrow> ((int \<times> nat) option \<times> key \<times> file_load_info \<times> server) option" where
  "parse_value_name key buffer info s =
     (case get_file_tmp_space info (length buffer * 2) s of
        (False, info1, s1) \<Rightarrow> Some (None, key, info1, s1)
      | (True, info1, s1) \<Rightarrow>
          (case value_name buffer of
             Overrun \<Rightarrow> None
           | Malformed \<Rightarrow> Some (None, key, info1, s1)
           | Parsed (nm, len) \<Rightarrow>
               if take 1 (drop len buffer) = ''='' then
                 (case insert_value key nm s1 of
                    (None, key1, s2) \<Rightarrow> Some (None, key1, info1, s2)
                  | (Some index, key1, s2) \<Rightarrow> Some (Some (index, len + 1), key1, info1, s2))
               else Some (None, key, info1, s1)))"

text \<open>
  The \<^verbatim>\<open>switch\<close> of \<^verbatim>\<open>load_value\<close> on the type to parse as: the bytes of the data
  (\<^verbatim>\<open>ptr\<close> and \<^verbatim>\<open>len\<close>), or \<open>False\<close> for \<^verbatim>\<open>return 0\<close> and \<^verbatim>\<open>goto error\<close>;
  \<open>None\<close> is a call without a result (the parser left the line, or the assertion of
  the \<^verbatim>\<open>default\<close> branch failed). \<^verbatim>\<open>get_data_type\<close> gives no other type to parse as
  than these three.
\<close>

definition load_data ::
  "32 word \<Rightarrow> string \<Rightarrow> file_load_info \<Rightarrow> server
   \<Rightarrow> (bool \<times> byte list \<times> file_load_info \<times> server) option" where
  "load_data parse_type buffer info s =
     (if parse_type = REG_SZ then
        (case get_file_tmp_space info (length buffer * 2) s of
           (False, info1, s1) \<Rightarrow> Some (False, [], info1, s1)
         | (True, info1, s1) \<Rightarrow>
             (case parse_strW (length buffer * 2) buffer dquote of
                Overrun \<Rightarrow> None
              | Malformed \<Rightarrow> Some (False, [], info1, s1)
              | Parsed (dest, len, res) \<Rightarrow>
                  Some (True, concat (map wchar_bytes (dest @ [0])), info1, s1)))
      else if parse_type = REG_DWORD then
        Some (True, dword_bytes (fst (strtoul16 buffer)), info, s)
      else if parse_type = REG_BINARY then load_hex [] buffer info s
      else None)"

text \<open>\<^verbatim>\<open>load_value\<close>: the result is 1 or 0; \<open>None\<close> is a call without a result.\<close>

definition load_value ::
  "key \<Rightarrow> string \<Rightarrow> file_load_info \<Rightarrow> server
   \<Rightarrow> (int \<times> key \<times> file_load_info \<times> server) option" where
  "load_value key buffer info s =
     (case parse_value_name key buffer info s of
        None \<Rightarrow> None
      | Some (None, key1, info1, s1) \<Rightarrow> Some (0, key1, info1, s1)
      | Some (Some (index, len), key1, info1, s1) \<Rightarrow>
          (case get_data_type (drop len buffer) of
             (res, type, parse_type) \<Rightarrow>
               if res = 0 then Some (0, key1, info1, s1)
               else
                 (case load_data parse_type (drop (len + res) buffer) info1 s1 of
                    None \<Rightarrow> None
                  | Some (False, ptr, info2, s2) \<Rightarrow> Some (0, key1, info2, s2)
                  | Some (True, ptr, info2, s2) \<Rightarrow>
                      (case (if ptr = [] then (True, None, s2)
                             else
                               (case mem_alloc s2 of
                                  (False, s3) \<Rightarrow> (False, None, s3)
                                | (True, s3) \<Rightarrow> (True, Some ptr, s3))) of
                         (False, newptr, s3) \<Rightarrow> Some (0, key1, info2, s3)
                       | (True, newptr, s3) \<Rightarrow>
                           (let v = kvalues key1 ! nat index;
                                s4 = free_data (vdata v) s3;
                                v1 = v\<lparr>vdata := newptr, vlen := length ptr, vtype := type\<rparr>
                            in Some (1,
                                 set_level
                                   (word_of_int (max (sint (level key1)) (current_level s4)))
                                   (set_kvalues ((kvalues key1)[nat index := v1]) key1),
                                 info2, s4))))))"

subsection \<open>load_keys\<close>

lemma load_hex_file:
  "load_hex tmp buffer info s = Some (ok, bytes, info', s') \<Longrightarrow>
   length (info_file info') \<le> length (info_file info)"
proof (induction tmp buffer info s rule: load_hex.induct)
  case (1 tmp buffer info s)
  note eq = "1.prems" [unfolded load_hex.simps [of tmp buffer info s]]
  obtain ok1 info1 s1
    where g: "get_file_tmp_space info (length tmp + (1 + length buffer div 3)) s = (ok1, info1, s1)"
    by (metis prod_cases3)
  note f1 = get_file_tmp_space_file [OF g]
  note eq1 = eq [unfolded g prod.case]
  show ?case
  proof (cases ok1)
    case False
    with eq1 f1 show ?thesis by simp
  next
    case True
    note eq2 = eq1 [unfolded eqTrueI [OF True] bool.case]
    show ?thesis
    proof (cases "parse_hex (1 + length buffer div 3) buffer")
      case Overrun
      with eq2 show ?thesis by simp
    next
      case Malformed
      with eq2 f1 show ?thesis by simp
    next
      case (Parsed x)
      obtain bs count res where x: "x = (bs, count, res)" by (metis prod_cases3)
      note eq3 = eq2 [unfolded Parsed x parsed.case prod.case]
      show ?thesis
      proof (cases "dropWhile isspace (drop res buffer)")
        case Nil
        from eq3 [unfolded Nil list.case] f1 show ?thesis by simp
      next
        case (Cons c r)
        note eq4 = eq3 [unfolded Cons list.case]
        show ?thesis
        proof (cases "c = bslash")
          case False
          with eq4 f1 show ?thesis by simp
        next
          case bs: True
          note eq5 = eq4 [unfolded eqTrueI [OF bs] if_True]
          show ?thesis
          proof (cases "read_next_line info1 s1")
            case None
            with eq5 show ?thesis by simp
          next
            case rn: (Some y)
            obtain rc info2 s2 where y: "y = (rc, info2, s2)" by (metis prod_cases3)
            note f2 = read_next_line_file [OF rn [unfolded y]]
            note eq6 = eq5 [unfolded rn y option.case prod.case]
            show ?thesis
            proof (cases "rc = 1")
              case False
              with eq6 f1 f2 show ?thesis by simp
            next
              case rc: True
              with eq6
              have rec: "load_hex (tmp @ bs) (dropWhile isspace (info_buffer info2)) info2 s2
                         = Some (ok, bytes, info', s')" by simp
              from True have t: "ok1 = True" by simp
              have "length (info_file info') \<le> length (info_file info2)"
                by (rule "1.IH" [OF g [symmetric] t refl Parsed x [symmetric] refl Cons bs rn
                    y [symmetric] refl rc rec])
              with f1 f2 show ?thesis by simp
            qed
          qed
        qed
      qed
    qed
  qed
qed

lemma parse_value_name_file:
  "parse_value_name key buffer info s = Some (r, key1, info1, s1) \<Longrightarrow>
   info_file info1 = info_file info"
proof -
  assume a: "parse_value_name key buffer info s = Some (r, key1, info1, s1)"
  obtain ok info0 s0 where g: "get_file_tmp_space info (length buffer * 2) s = (ok, info0, s0)"
    by (metis prod_cases3)
  from a have "info1 = info0"
    unfolding parse_value_name_def g prod.case
    by (auto split: bool.splits option.splits prod.splits if_splits parsed.splits)
  with get_file_tmp_space_file [OF g] show ?thesis by simp
qed

lemma load_data_file:
  "load_data pt buffer info s = Some (ok, ptr, info', s') \<Longrightarrow>
   length (info_file info') \<le> length (info_file info)"
proof -
  assume a: "load_data pt buffer info s = Some (ok, ptr, info', s')"
  consider "pt = REG_SZ" | "pt \<noteq> REG_SZ" "pt = REG_DWORD"
    | "pt \<noteq> REG_SZ" "pt \<noteq> REG_DWORD" "pt = REG_BINARY"
    | "pt \<noteq> REG_SZ" "pt \<noteq> REG_DWORD" "pt \<noteq> REG_BINARY" by blast
  then show ?thesis
  proof cases
    case 1
    obtain ok0 info0 s0 where g: "get_file_tmp_space info (length buffer * 2) s = (ok0, info0, s0)"
      by (metis prod_cases3)
    from a 1 have "info' = info0"
      unfolding load_data_def g prod.case
      by (auto split: bool.splits parsed.splits prod.splits)
    with get_file_tmp_space_file [OF g] show ?thesis by simp
  next
    case 2
    with a show ?thesis by (simp add: load_data_def)
  next
    case 3
    with a have "load_hex [] buffer info s = Some (ok, ptr, info', s')"
      by (simp add: load_data_def)
    then show ?thesis by (rule load_hex_file)
  next
    case 4
    with a show ?thesis by (simp add: load_data_def)
  qed
qed

lemma load_value_file:
  "load_value key buffer info s = Some (rc, key', info', s') \<Longrightarrow>
   length (info_file info') \<le> length (info_file info)"
proof -
  assume a: "load_value key buffer info s = Some (rc, key', info', s')"
  then obtain r key1 info1 s1
    where p: "parse_value_name key buffer info s = Some (r, key1, info1, s1)"
    by (cases "parse_value_name key buffer info s") (auto simp: load_value_def)
  note f1 = parse_value_name_file [OF p]
  note a1 = a [unfolded load_value_def p option.case prod.case]
  show ?thesis
  proof (cases r)
    case None
    with a1 f1 show ?thesis by simp
  next
    case (Some x)
    obtain index len where x: "x = (index, len)" by (cases x)
    obtain res type pt where g: "get_data_type (drop len buffer) = (res, type, pt)"
      by (metis prod_cases3)
    note a2 = a1 [unfolded Some x option.case prod.case g]
    show ?thesis
    proof (cases "res = 0")
      case True
      with a2 f1 show ?thesis by simp
    next
      case False
      note a3 = a2 [unfolded eq_False [THEN iffD2, OF False] if_False]
      show ?thesis
      proof (cases "load_data pt (drop (len + res) buffer) info1 s1")
        case None
        with a3 show ?thesis by simp
      next
        case ld: (Some y)
        obtain ok ptr info2 s2 where y: "y = (ok, ptr, info2, s2)" by (metis prod_cases4)
        note f2 = load_data_file [OF ld [unfolded y]]
        from a3 [unfolded ld y option.case prod.case] have "info' = info2"
          by (auto simp: Let_def split: bool.splits prod.splits if_splits)
        with f1 f2 show ?thesis by simp
      qed
    qed
  qed
qed

lemma load_key_file:
  "load_key base buffer info s = Some (sub, base', info', s') \<Longrightarrow>
   info_file info' = info_file info"
  by (auto simp: load_key_def Let_def
      split: prod.splits parsed.splits bool.splits created.splits
      dest!: get_file_tmp_space_file)

text \<open>
  The body of the loop of \<^verbatim>\<open>load_keys\<close> on the line in the buffer; \<open>subkey\<close> is the
  path of the key that the last key line gave.
\<close>

definition load_line ::
  "key \<Rightarrow> nat list option \<Rightarrow> file_load_info \<Rightarrow> server
   \<Rightarrow> (key \<times> nat list option \<times> file_load_info \<times> server) option" where
  "load_line key subkey info s =
     (case dropWhile isspace (info_buffer info) of
        [] \<Rightarrow> Some (key, subkey, info, s)
      | c # r \<Rightarrow>
          if c = CHR ''['' then
            (case load_key key r info s of
               None \<Rightarrow> None
             | Some (sub, key1, info1, s1) \<Rightarrow> Some (key1, sub, info1, s1))
          else if c = CHR ''@'' \<or> c = dquote then
            (case subkey of
               None \<Rightarrow> Some (key, subkey, info, s)
             | Some path \<Rightarrow>
                 (case load_value (key_at path key) (c # r) info s of
                    None \<Rightarrow> None
                  | Some (rc, k1, info1, s1) \<Rightarrow> Some (put_at path k1 key, subkey, info1, s1)))
          else Some (key, subkey, info, s))"

lemma load_line_file:
  "load_line key subkey info s = Some (key', subkey', info', s') \<Longrightarrow>
   length (info_file info') \<le> length (info_file info)"
  by (auto simp: load_line_def split: list.splits option.splits if_splits
      dest!: load_key_file load_value_file)

function load_loop ::
  "key \<Rightarrow> nat list option \<Rightarrow> file_load_info \<Rightarrow> server \<Rightarrow> (key \<times> server) option" where
  "load_loop key subkey info s =
     (case read_next_line info s of
        None \<Rightarrow> None
      | Some (rc, info1, s1) \<Rightarrow>
          if rc = 1 then
            (case load_line key subkey info1 s1 of
               None \<Rightarrow> None
             | Some (key2, subkey2, info2, s2) \<Rightarrow> load_loop key2 subkey2 info2 s2)
          else Some (key, s1))"
  by pat_completeness auto
termination
  by (relation "measure (\<lambda>(key, subkey, info, s). length (info_file info))")
     (auto dest!: read_next_line_file load_line_file)

declare load_loop.simps [simp del]

definition registry_header :: string where
  "registry_header = ''WINE REGISTRY Version 2''"

text \<open>
  \<^verbatim>\<open>load_keys\<close> on the text of the file: the tree and the state it leaves, or \<open>None\<close>
  for a call without a result.
\<close>

definition load_keys :: "key \<Rightarrow> string \<Rightarrow> server \<Rightarrow> (key \<times> server) option" where
  "load_keys key f s =
     (case mem_alloc s of
        (False, s1) \<Rightarrow> Some (key, s1)
      | (True, s1) \<Rightarrow>
          (case mem_alloc s1 of
             (False, s2) \<Rightarrow> Some (key, s2)
           | (True, s2) \<Rightarrow>
               (case read_next_line
                       \<lparr>info_file = f, info_buffer = [], info_len = 4, info_line = 0,
                        info_tmplen = 4\<rparr> s2 of
                  None \<Rightarrow> None
                | Some (rc, info1, s3) \<Rightarrow>
                    if rc = 1 \<and> info_buffer info1 = registry_header then
                      load_loop key None info1 s3
                    else Some (key, set_error ERROR_NOT_REGISTRY_FILE s3))))"

subsection \<open>Root keys and the initial state\<close>

text \<open>
  \<^verbatim>\<open>create_root_key\<close> for the roots that are no alias (all but
  \<^verbatim>\<open>HKEY_CLASSES_ROOT\<close>): a key without a name, flagged \<^verbatim>\<open>KEY_ROOT\<close>.
\<close>

definition create_root_key :: "server \<Rightarrow> key option \<times> server" where
  "create_root_key s =
     (case alloc_key None (now s) s of
        (None, s1) \<Rightarrow> (None, s1)
      | (Some key, s1) \<Rightarrow> (Some (set_flags (flags key OR KEY_ROOT) key), s1))"

text \<open>
  The state when the server starts: the static levels are 0 and
  \<^verbatim>\<open>saving_version\<close> is initialised to 1.
\<close>

definition initial_server :: "int \<Rightarrow> bool list \<Rightarrow> server" where
  "initial_server clock plan =
     \<lparr> current_level = 0, saving_level = 0, saving_version = 1,
       last_error = None, now = clock, allocs = plan, alloc_failures = 0, freed = [] \<rparr>"

section \<open>Properties of the key tree\<close>


subsection \<open>Field lemmas\<close>

lemma set_kclass_sel [simp]:
  "name (set_kclass x k) = name k" "kclass (set_kclass x k) = x"
  "nb_subkeys (set_kclass x k) = nb_subkeys k" "subkeys (set_kclass x k) = subkeys k"
  "nb_values (set_kclass x k) = nb_values k" "kvalues (set_kclass x k) = kvalues k"
  "flags (set_kclass x k) = flags k" "level (set_kclass x k) = level k"
  "modif (set_kclass x k) = modif k"
  by (cases k; simp)+

lemma set_nb_subkeys_sel [simp]:
  "name (set_nb_subkeys x k) = name k" "kclass (set_nb_subkeys x k) = kclass k"
  "nb_subkeys (set_nb_subkeys x k) = x" "subkeys (set_nb_subkeys x k) = subkeys k"
  "nb_values (set_nb_subkeys x k) = nb_values k" "kvalues (set_nb_subkeys x k) = kvalues k"
  "flags (set_nb_subkeys x k) = flags k" "level (set_nb_subkeys x k) = level k"
  "modif (set_nb_subkeys x k) = modif k"
  by (cases k; simp)+

lemma set_subkeys_sel [simp]:
  "name (set_subkeys x k) = name k" "kclass (set_subkeys x k) = kclass k"
  "nb_subkeys (set_subkeys x k) = nb_subkeys k" "subkeys (set_subkeys x k) = x"
  "nb_values (set_subkeys x k) = nb_values k" "kvalues (set_subkeys x k) = kvalues k"
  "flags (set_subkeys x k) = flags k" "level (set_subkeys x k) = level k"
  "modif (set_subkeys x k) = modif k"
  by (cases k; simp)+

lemma set_nb_values_sel [simp]:
  "name (set_nb_values x k) = name k" "kclass (set_nb_values x k) = kclass k"
  "nb_subkeys (set_nb_values x k) = nb_subkeys k" "subkeys (set_nb_values x k) = subkeys k"
  "nb_values (set_nb_values x k) = x" "kvalues (set_nb_values x k) = kvalues k"
  "flags (set_nb_values x k) = flags k" "level (set_nb_values x k) = level k"
  "modif (set_nb_values x k) = modif k"
  by (cases k; simp)+

lemma set_kvalues_sel [simp]:
  "name (set_kvalues x k) = name k" "kclass (set_kvalues x k) = kclass k"
  "nb_subkeys (set_kvalues x k) = nb_subkeys k" "subkeys (set_kvalues x k) = subkeys k"
  "nb_values (set_kvalues x k) = nb_values k" "kvalues (set_kvalues x k) = x"
  "flags (set_kvalues x k) = flags k" "level (set_kvalues x k) = level k"
  "modif (set_kvalues x k) = modif k"
  by (cases k; simp)+

lemma set_flags_sel [simp]:
  "name (set_flags x k) = name k" "kclass (set_flags x k) = kclass k"
  "nb_subkeys (set_flags x k) = nb_subkeys k" "subkeys (set_flags x k) = subkeys k"
  "nb_values (set_flags x k) = nb_values k" "kvalues (set_flags x k) = kvalues k"
  "flags (set_flags x k) = x" "level (set_flags x k) = level k"
  "modif (set_flags x k) = modif k"
  by (cases k; simp)+

lemma set_level_sel [simp]:
  "name (set_level x k) = name k" "kclass (set_level x k) = kclass k"
  "nb_subkeys (set_level x k) = nb_subkeys k" "subkeys (set_level x k) = subkeys k"
  "nb_values (set_level x k) = nb_values k" "kvalues (set_level x k) = kvalues k"
  "flags (set_level x k) = flags k" "level (set_level x k) = x"
  "modif (set_level x k) = modif k"
  by (cases k; simp)+

lemma set_modif_sel [simp]:
  "name (set_modif x k) = name k" "kclass (set_modif x k) = kclass k"
  "nb_subkeys (set_modif x k) = nb_subkeys k" "subkeys (set_modif x k) = subkeys k"
  "nb_values (set_modif x k) = nb_values k" "kvalues (set_modif x k) = kvalues k"
  "flags (set_modif x k) = flags k" "level (set_modif x k) = level k"
  "modif (set_modif x k) = x"
  by (cases k; simp)+

lemma key_eqI:
  "name a = name b \<Longrightarrow> kclass a = kclass b \<Longrightarrow> nb_subkeys a = nb_subkeys b \<Longrightarrow>
   subkeys a = subkeys b \<Longrightarrow> nb_values a = nb_values b \<Longrightarrow> kvalues a = kvalues b \<Longrightarrow>
   flags a = flags b \<Longrightarrow> level a = level b \<Longrightarrow> modif a = modif b \<Longrightarrow> a = b"
  by (cases a; cases b; simp)

lemma last_value_set [simp]:
  "last_value (set_nb_values x k) = last_value k"
  by (simp add: last_value_def)



lemma alloc_fields:
  "alloc s = (b, s1) \<Longrightarrow>
     current_level s1 = current_level s \<and> saving_level s1 = saving_level s \<and>
     saving_version s1 = saving_version s \<and> last_error s1 = last_error s \<and>
     now s1 = now s \<and> freed s1 = freed s \<and>
     alloc_failures s1 = (if b then alloc_failures s else alloc_failures s + 1)"
  by (auto simp: alloc_def split: list.splits)

lemma mem_alloc_fields:
  "mem_alloc s = (b, s1) \<Longrightarrow>
     current_level s1 = current_level s \<and> saving_level s1 = saving_level s \<and>
     saving_version s1 = saving_version s \<and>
     last_error s1 = (if b then last_error s else Some ERROR_OUTOFMEMORY) \<and>
     now s1 = now s \<and> freed s1 = freed s \<and>
     alloc_failures s1 = (if b then alloc_failures s else alloc_failures s + 1)"
  by (auto simp: mem_alloc_def set_error_def split: prod.splits bool.splits dest: alloc_fields)

definition same_but_nb_values :: "key \<Rightarrow> key \<Rightarrow> bool" where
  "same_but_nb_values a b \<longleftrightarrow>
     name a = name b \<and> kclass a = kclass b \<and> nb_subkeys a = nb_subkeys b \<and>
     subkeys a = subkeys b \<and> kvalues a = kvalues b \<and> flags a = flags b \<and>
     level a = level b \<and> modif a = modif b"

lemma grow_values_fields:
  "grow_values key s = (ok, key1, s1) \<Longrightarrow>
     same_but_nb_values key1 key \<and>
     current_level s1 = current_level s \<and> now s1 = now s \<and> freed s1 = freed s \<and>
     alloc_failures s1 = (if ok then alloc_failures s else alloc_failures s + 1)"
  by (auto simp: grow_values_def set_error_def same_but_nb_values_def
      split: if_splits prod.splits bool.splits
      dest: alloc_fields mem_alloc_fields)

lemma insert_value_fields:
  assumes "insert_value key nm s = (r, key1, s1)" and "find_value key nm = (found, index)"
  shows "current_level s1 = current_level s \<and> now s1 = now s \<and> freed s1 = freed s \<and>
     (case r of
        None \<Rightarrow> same_but_nb_values key1 key \<and> alloc_failures s1 \<noteq> alloc_failures s
      | Some i \<Rightarrow> i = index \<and> alloc_failures s1 = alloc_failures s \<and>
          same_but_nb_values key1
             (if found then key
              else set_kvalues (insert_at (nat index)
                \<lparr>vname = nm, vtype = 0, vlen = 0, vdata = None\<rparr> (kvalues key)) key))"
proof (cases found)
  case True
  with assms show ?thesis by (auto simp: insert_value_def same_but_nb_values_def)
next
  case False
  obtain ok k1 t1 where g: "(if last_value key + 1 = nb_values key then grow_values key s
                 else (True, key, s)) = (ok, k1, t1)"
    by (metis prod_cases3)
  then have g': "same_but_nb_values k1 key \<and>
     current_level t1 = current_level s \<and> now t1 = now s \<and> freed t1 = freed s \<and>
     alloc_failures t1 = (if ok then alloc_failures s else alloc_failures s + 1)"
    by (auto split: if_splits dest: grow_values_fields simp: same_but_nb_values_def)
  show ?thesis
  proof (cases ok)
    case False
    with assms \<open>\<not> found\<close> g g' show ?thesis
      by (simp add: insert_value_def)
  next
    case True
    obtain b t2 where a: "alloc t1 = (b, t2)" by (metis prod.exhaust)
    from alloc_fields [OF a] g' True assms \<open>\<not> found\<close> g a show ?thesis
      by (cases b) (auto simp: insert_value_def same_but_nb_values_def)
  qed
qed


lemma free_data_fields [simp]:
  "alloc_failures (free_data p s) = alloc_failures s"
  "current_level (free_data p s) = current_level s"
  "now (free_data p s) = now s"
  "freed (free_data p s) = (case p of None \<Rightarrow> freed s | Some d \<Rightarrow> d # freed s)"
  by (auto simp: free_data_def split: option.splits)

lemma find_value_loop_range:
  "find_value_loop vs nm lo hi = (f, i) \<Longrightarrow> lo \<le> hi + 1 \<Longrightarrow> lo \<le> i \<and> i \<le> hi + 1"
proof (induction vs nm lo hi rule: find_value_loop.induct)
  case (1 vs nm lo hi)
  show ?case
  proof (cases "lo \<le> hi")
    case False
    with "1.prems" show ?thesis by (simp add: find_value_loop.simps)
  next
    case True
    let ?i = "(lo + hi) div 2"
    let ?res = "strcmpiW (vname (vs ! nat ?i)) nm"
    from True have m: "lo \<le> ?i" "?i \<le> hi" by auto
    consider "?res = 0" | "?res \<noteq> 0" "?res > 0" | "?res \<noteq> 0" "\<not> ?res > 0" by blast
    then show ?thesis
    proof cases
      case 1
      with True "1.prems" m show ?thesis by (simp add: find_value_loop.simps [of vs nm lo hi] Let_def)
    next
      case 2
      with True "1.prems" have "find_value_loop vs nm lo (?i - 1) = (f, i)"
        by (simp add: find_value_loop.simps [of vs nm lo hi] Let_def)
      from "1.IH"(1) [OF True refl refl 2(1) 2(2) this] m show ?thesis by auto
    next
      case 3
      with True "1.prems" have "find_value_loop vs nm (?i + 1) hi = (f, i)"
        by (simp add: find_value_loop.simps [of vs nm lo hi] Let_def)
      from "1.IH"(2) [OF True refl refl 3(1) 3(2) this] m show ?thesis by auto
    qed
  qed
qed

lemma find_value_range:
  "find_value key nm = (f, i) \<Longrightarrow> 0 \<le> i \<and> nat i \<le> length (kvalues key)"
  using find_value_loop_range [of "kvalues key" nm 0 "last_value key" f i]
  by (auto simp: find_value_def last_value_def)

lemma insert_at_nth [simp]: "i \<le> length xs \<Longrightarrow> insert_at i x xs ! i = x"
  by (simp add: insert_at_def nth_append)

lemma insert_at_update [simp]:
  "i \<le> length xs \<Longrightarrow> (insert_at i x xs)[i := y] = insert_at i y xs"
  by (simp add: insert_at_def list_update_append)

lemma same_but_nb_values_touch:
  "same_but_nb_values a b \<Longrightarrow> same_but_nb_values (touch_key a s) (touch_key b s)"
  by (simp add: same_but_nb_values_def touch_key_def)



lemma set_value_tail:
  assumes tl: "(case insert_value key nm s1 of
             (None, key1, s2) \<Rightarrow> (key1, free_data ptr s2)
           | (Some index, key1, s2) \<Rightarrow>
               (let v = kvalues key1 ! nat index;
                    s3 = free_data (vdata v) s2;
                    v1 = v\<lparr>vtype := type, vlen := datalen, vdata := ptr\<rparr>
                in (touch_key (set_kvalues ((kvalues key1)[nat index := v1]) key1) s3, s3)))
            = (key', s')"
      and fv: "find_value key nm = (found, index)"
  shows "if alloc_failures s' = alloc_failures s1 then
           same_but_nb_values key'
             (touch_key
                (set_kvalues
                   (if found then
                      (kvalues key)[nat index := (kvalues key ! nat index)
                         \<lparr>vtype := type, vlen := datalen, vdata := ptr\<rparr>]
                    else
                      insert_at (nat index)
                        \<lparr>vname = nm, vtype = type, vlen = datalen, vdata = ptr\<rparr>
                        (kvalues key))
                   key) s1) \<and>
           freed s' =
             (if found then
                (case vdata (kvalues key ! nat index) of
                   None \<Rightarrow> freed s1 | Some old \<Rightarrow> old # freed s1)
              else freed s1)
         else same_but_nb_values key' key"
proof -
  obtain r key1 s2 where iv: "insert_value key nm s1 = (r, key1, s2)"
    by (metis prod_cases3)
  note f = insert_value_fields [OF iv fv]
  show ?thesis
  proof (cases r)
    case None
    from tl have "key' = key1" "s' = free_data ptr s2"
      unfolding iv None by simp_all
    with f None show ?thesis by simp
  next
    case (Some i)
    with f have i: "i = index" and af: "alloc_failures s2 = alloc_failures s1"
      and lv: "current_level s2 = current_level s1" and nw: "now s2 = now s1"
      and fr: "freed s2 = freed s1" by simp_all
    from find_value_range [OF fv] have r: "nat index \<le> length (kvalues key)"
      by simp
    let ?v = "kvalues key1 ! nat index"
    from tl have k: "key' = touch_key (set_kvalues ((kvalues key1)[nat index :=
                  ?v\<lparr>vtype := type, vlen := datalen, vdata := ptr\<rparr>]) key1)
                  (free_data (vdata ?v) s2)"
      and s': "s' = free_data (vdata ?v) s2"
      unfolding iv Some i by (auto simp: Let_def)
    have t: "touch_key k (free_data p s2) = touch_key k s1" for k p
      by (simp add: touch_key_def lv nw)
    show ?thesis
    proof (cases found)
      case True
      with f Some have sb: "same_but_nb_values key1 key" by simp
      then have kv: "kvalues key1 = kvalues key" by (simp add: same_but_nb_values_def)
      have "same_but_nb_values key' (touch_key (set_kvalues ((kvalues key)[nat index :=
                  (kvalues key ! nat index)\<lparr>vtype := type, vlen := datalen, vdata := ptr\<rparr>]) key) s1)"
        unfolding k t kv using sb
        by (simp add: same_but_nb_values_def touch_key_def)
      moreover have "freed s' = (case vdata (kvalues key ! nat index) of
                   None \<Rightarrow> freed s1 | Some old \<Rightarrow> old # freed s1)"
        unfolding s' kv by (simp add: fr split: option.splits)
      moreover have "alloc_failures s' = alloc_failures s1"
        unfolding s' by (simp add: af)
      ultimately show ?thesis using True by simp
    next
      case False
      with f Some have sb: "same_but_nb_values key1 (set_kvalues (insert_at (nat index)
                \<lparr>vname = nm, vtype = 0, vlen = 0, vdata = None\<rparr> (kvalues key)) key)" by simp
      then have kv: "kvalues key1 = insert_at (nat index)
                \<lparr>vname = nm, vtype = 0, vlen = 0, vdata = None\<rparr> (kvalues key)"
        by (simp add: same_but_nb_values_def)
      have "same_but_nb_values key' (touch_key (set_kvalues (insert_at (nat index)
                        \<lparr>vname = nm, vtype = type, vlen = datalen, vdata = ptr\<rparr>
                        (kvalues key)) key) s1)"
        unfolding k t kv using sb r
        by (simp add: same_but_nb_values_def touch_key_def)
      moreover have "freed s' = freed s1"
        unfolding s' kv using r by (simp add: fr split: option.splits)
      moreover have "alloc_failures s' = alloc_failures s1"
        unfolding s' by (simp add: af)
      ultimately show ?thesis using False by simp
    qed
  qed
qed


text \<open>
  C5. \<^verbatim>\<open>query_key\<close> on a key with one subkey, of name \<open>AB\<close> and class \<open>c\<close>, and one
  value, of name \<open>v\<close> and four bytes of data: both loops stop before the last index, so
  the four maxima reported are 0, where the maxima over every subkey and every value are
  2, 1, 1 and 4.
\<close>

theorem query_key_skips_last:
  "query_key
     (Key None None 8 [Key (Some [0x41, 0x42]) (Some [0x63]) 0 [] 0 [] 0 0 5]
        8 [\<lparr>vname = [0x76], vtype = 4, vlen = 4, vdata = Some [1, 2, 3, 4]\<rparr>] 0 0 9)
   = \<lparr> req_subkeys = 1, req_max_subkey = 0, req_max_class = 0,
       req_values = 1, req_max_value = 0, req_max_data = 0,
       req_modif = 9, req_class = [] \<rparr>"
  by code_simp

text \<open>
  C6. \<^verbatim>\<open>free_subkey\<close> on a parent with an array of 12 slots, two of them in use: the
  key at index 0 leaves the array and is flagged \<^verbatim>\<open>KEY_DELETED\<close>, one subkey remains
  (fewer than half of 12), and the parent's array keeps its 12 slots; the size that the
  source tests and shrinks is the removed key's (here 12 slots, none in use, cut to 8).
\<close>

theorem free_subkey_keeps_parent_size:
  "free_subkey
     (Key None None 12
        [Key (Some [0x41]) None 12 [] 0 [] 0 0 5, Key (Some [0x42]) None 0 [] 0 [] 0 0 5]
        0 [] 0 0 5) 0 (initial_server 9 [])
   = Some (Key None None 12 [Key (Some [0x42]) None 0 [] 0 [] 0 0 5] 0 [] 0 0 5,
           Key (Some [0x41]) None 8 [] 0 [] 2 0 5,
           initial_server 9 [])"
  by code_simp

text \<open>
  C2. \<^verbatim>\<open>create_key\<close> of the path \<open>A\<close> under a key whose only subkey is \<open>B\<close>, when the
  allocation of the new key fails: no segment was created, \<^verbatim>\<open>base_idx\<close> is the index
  where \<open>A\<close> would have gone (0, never -1), and the undo frees the subkey that stands
  there, \<open>B\<close>. The call returns \<^verbatim>\<open>NULL\<close> and the base key is left without subkeys.
\<close>

theorem create_key_failure_removes_sibling:
  "create_key
     (Key None None 8 [Key (Some [0x42]) None 0 [] 0 [] 0 0 5] 0 [] 4 0 5)
     [0x41, 0] 4 None 0 7 (initial_server 9 [False])
   = Failed (Key None None 8 [] 0 [] 4 0 5)
       ((initial_server 9 []) \<lparr>last_error := Some ERROR_OUTOFMEMORY, alloc_failures := 1\<rparr>)"
  by code_simp

text \<open>
  C3. Under a root key, \<^verbatim>\<open>create_key\<close> of \<open>A\<close> with \<^verbatim>\<open>REG_OPTION_VOLATILE\<close> creates
  a volatile key; \<^verbatim>\<open>create_key\<close> of \<open>A\B\<close> from the root without the option then
  succeeds, as only the flags of the key the call starts from are tested, and creates
  \<open>B\<close> with no flag under the volatile \<open>A\<close>.
\<close>

theorem create_key_non_volatile_under_volatile:
  "create_key (Key None None 0 [] 0 [] 4 0 5) [0x41, 0] 4 None 1 7 (initial_server 9 [])
   = Done [0] True
       (Key None None 8 [Key (Some [0x41]) None 0 [] 0 [] 1 0 7] 0 [] 4 0 5)
       (initial_server 9 []) \<and>
   create_key
     (Key None None 8 [Key (Some [0x41]) None 0 [] 0 [] 1 0 7] 0 [] 4 0 5)
     [0x41, 0x5C, 0x42, 0] 8 None 0 7 (initial_server 9 [])
   = Done [0, 0] True
       (Key None None 8
          [Key (Some [0x41]) None 8 [Key (Some [0x42]) None 0 [] 0 [] 0 0 7] 0 [] 1 0 7]
          0 [] 4 0 5)
       (initial_server 9 [])"
  by code_simp

section \<open>Properties of the value operations\<close>

lemma strcmpiW_neg: "strcmpiW b a = - strcmpiW a b"
  by (induction a b rule: strcmpiW.induct) auto

lemma strcmpiW_refl [simp]: "strcmpiW a a = 0"
  by (induction a) auto

lemma strcmpiW_trans:
  "strcmpiW a b < 0 \<Longrightarrow> strcmpiW b c < 0 \<Longrightarrow> strcmpiW a c < 0"
proof (induction a b arbitrary: c rule: strcmpiW.induct)
  case 1
  then show ?case by simp
next
  case (2 b bs)
  then show ?case by (cases c) (auto split: if_splits)
next
  case (3 a as)
  then show ?case by simp
next
  case (4 a as b bs)
  show ?case
  proof (cases c)
    case Nil
    with "4.prems" show ?thesis by simp
  next
    case (Cons z zs)
    with "4.prems" "4.IH" [of zs] show ?thesis
      by (auto split: if_splits)
  qed
qed

text \<open>The order in which \<^verbatim>\<open>find_value\<close> and \<^verbatim>\<open>insert_value\<close> keep the values of a key.\<close>

definition values_sorted :: "key_value list \<Rightarrow> bool" where
  "values_sorted vs = sorted_wrt (\<lambda>a b. strcmpiW (vname a) (vname b) < 0) vs"

lemma values_sorted_nth:
  "values_sorted vs \<Longrightarrow> i < j \<Longrightarrow> j < length vs \<Longrightarrow> strcmpiW (vname (vs ! i)) (vname (vs ! j)) < 0"
  unfolding values_sorted_def by (rule sorted_wrt_nth_less)

lemma find_value_loop_match:
  "find_value_loop vs nm lo hi = (True, i) \<Longrightarrow>
   lo \<le> i \<and> i \<le> hi \<and> strcmpiW (vname (vs ! nat i)) nm = 0"
proof (induction vs nm lo hi rule: find_value_loop.induct)
  case (1 vs nm lo hi)
  show ?case
  proof (cases "lo \<le> hi")
    case False
    with "1.prems" show ?thesis by (simp add: find_value_loop.simps)
  next
    case True
    let ?i = "(lo + hi) div 2"
    let ?res = "strcmpiW (vname (vs ! nat ?i)) nm"
    from True have m: "lo \<le> ?i" "?i \<le> hi" by auto
    consider "?res = 0" | "?res \<noteq> 0" "?res > 0" | "?res \<noteq> 0" "\<not> ?res > 0" by blast
    then show ?thesis
    proof cases
      case 1
      with True "1.prems" m show ?thesis
        by (simp add: find_value_loop.simps [of vs nm lo hi] Let_def)
    next
      case 2
      with True "1.prems" have "find_value_loop vs nm lo (?i - 1) = (True, i)"
        by (simp add: find_value_loop.simps [of vs nm lo hi] Let_def)
      from "1.IH"(1) [OF True refl refl 2(1) 2(2) this] m show ?thesis by auto
    next
      case 3
      with True "1.prems" have "find_value_loop vs nm (?i + 1) hi = (True, i)"
        by (simp add: find_value_loop.simps [of vs nm lo hi] Let_def)
      from "1.IH"(2) [OF True refl refl 3(1) 3(2) this] m show ?thesis by auto
    qed
  qed
qed

lemma find_value_loop_absent:
  "values_sorted vs \<Longrightarrow> find_value_loop vs nm lo hi = (False, i) \<Longrightarrow> 0 \<le> lo \<Longrightarrow> hi < int (length vs) \<Longrightarrow>
    lo \<le> hi + 1 \<Longrightarrow>
    (\<forall>j. j < nat lo \<longrightarrow> strcmpiW (vname (vs ! j)) nm < 0) \<Longrightarrow>
    (\<forall>j. nat (hi + 1) \<le> j \<and> j < length vs \<longrightarrow> strcmpiW (vname (vs ! j)) nm > 0) \<Longrightarrow>
    0 \<le> i \<and> nat i \<le> length vs \<and>
    (\<forall>j. j < nat i \<longrightarrow> strcmpiW (vname (vs ! j)) nm < 0) \<and>
    (\<forall>j. nat i \<le> j \<and> j < length vs \<longrightarrow> strcmpiW (vname (vs ! j)) nm > 0)"
proof (induction vs nm lo hi rule: find_value_loop.induct)
  case (1 vs nm lo hi)
  note srt = "1.prems"(1)
  show ?case
  proof (cases "lo \<le> hi")
    case False
    with "1.prems" have "i = lo" by (simp add: find_value_loop.simps [of vs nm lo hi])
    moreover from False "1.prems" have "lo = hi + 1" by simp
    ultimately show ?thesis using "1.prems" by auto
  next
    case True
    let ?i = "(lo + hi) div 2"
    let ?res = "strcmpiW (vname (vs ! nat ?i)) nm"
    from True "1.prems" have m: "lo \<le> ?i" "?i \<le> hi" "0 \<le> ?i" "nat ?i < length vs" by auto
    consider "?res = 0" | "?res \<noteq> 0" "?res > 0" | "?res \<noteq> 0" "\<not> ?res > 0" by blast
    then show ?thesis
    proof cases
      case 1
      with True "1.prems" show ?thesis
        by (simp add: find_value_loop.simps [of vs nm lo hi] Let_def)
    next
      case 2
      with True "1.prems" have rec: "find_value_loop vs nm lo (?i - 1) = (False, i)"
        by (simp add: find_value_loop.simps [of vs nm lo hi] Let_def)
      have up: "\<forall>j. nat (?i - 1 + 1) \<le> j \<and> j < length vs \<longrightarrow> strcmpiW (vname (vs ! j)) nm > 0"
      proof (intro allI impI)
        fix j assume j: "nat (?i - 1 + 1) \<le> j \<and> j < length vs"
        show "strcmpiW (vname (vs ! j)) nm > 0"
        proof (cases "j = nat ?i")
          case True
          with 2 show ?thesis by simp
        next
          case False
          with j have "nat ?i < j" by simp
          from values_sorted_nth [OF srt this] j
          have a: "strcmpiW (vname (vs ! nat ?i)) (vname (vs ! j)) < 0" by simp
          from 2 have "strcmpiW nm (vname (vs ! nat ?i)) < 0"
            using strcmpiW_neg [of "vname (vs ! nat ?i)" nm] by simp
          from strcmpiW_trans [OF this a] show ?thesis
            using strcmpiW_neg [of "vname (vs ! j)" nm] by simp
        qed
      qed
      from m "1.prems" have b: "?i - 1 < int (length vs)" "lo \<le> ?i - 1 + 1" by auto
      from "1.IH"(1) [OF True refl refl 2(1) 2(2) srt rec "1.prems"(3) b "1.prems"(6) up]
      show ?thesis .
    next
      case 3
      with True "1.prems" have rec: "find_value_loop vs nm (?i + 1) hi = (False, i)"
        by (simp add: find_value_loop.simps [of vs nm lo hi] Let_def)
      from 3 have neg: "?res < 0" by simp
      have dn: "\<forall>j. j < nat (?i + 1) \<longrightarrow> strcmpiW (vname (vs ! j)) nm < 0"
      proof (intro allI impI)
        fix j assume j: "j < nat (?i + 1)"
        show "strcmpiW (vname (vs ! j)) nm < 0"
        proof (cases "j = nat ?i")
          case True
          with neg show ?thesis by simp
        next
          case False
          with j m have "j < nat ?i" by (simp add: nat_add_distrib)
          from values_sorted_nth [OF srt this m(4)]
          have a: "strcmpiW (vname (vs ! j)) (vname (vs ! nat ?i)) < 0" .
          from strcmpiW_trans [OF a neg] show ?thesis .
        qed
      qed
      from m "1.prems" have b: "0 \<le> ?i + 1" "?i + 1 \<le> hi + 1" by auto
      from "1.IH"(2) [OF True refl refl 3(1) 3(2) srt rec b(1) "1.prems"(4) b(2) dn "1.prems"(7)]
      show ?thesis .
    qed
  qed
qed

lemma find_value_match:
  "find_value key nm = (True, i) \<Longrightarrow>
   0 \<le> i \<and> nat i < length (kvalues key) \<and> strcmpiW (vname (kvalues key ! nat i)) nm = 0"
  using find_value_loop_match [of "kvalues key" nm 0 "last_value key" i]
  by (auto simp: find_value_def last_value_def)

lemma find_value_absent:
  assumes "values_sorted (kvalues key)" "find_value key nm = (False, i)"
  shows "0 \<le> i \<and> nat i \<le> length (kvalues key) \<and>
    (\<forall>j. j < nat i \<longrightarrow> strcmpiW (vname (kvalues key ! j)) nm < 0) \<and>
    (\<forall>j. nat i \<le> j \<and> j < length (kvalues key) \<longrightarrow> strcmpiW (vname (kvalues key ! j)) nm > 0)"
  using find_value_loop_absent [OF assms(1), of nm 0 "last_value key" i] assms(2)
  by (simp add: find_value_def last_value_def)

lemma values_sorted_insert:
  assumes srt: "values_sorted vs" and i: "i \<le> length vs"
    and lo: "\<forall>j. j < i \<longrightarrow> strcmpiW (vname (vs ! j)) (vname x) < 0"
    and hi: "\<forall>j. i \<le> j \<and> j < length vs \<longrightarrow> strcmpiW (vname x) (vname (vs ! j)) < 0"
  shows "values_sorted (insert_at i x vs)"
proof -
  let ?P = "\<lambda>a b. strcmpiW (vname a) (vname b) < 0"
  from srt have "sorted_wrt ?P (take i vs @ drop i vs)" by (simp add: values_sorted_def)
  then have s1: "sorted_wrt ?P (take i vs)" and s2: "sorted_wrt ?P (drop i vs)"
    and s3: "\<forall>a\<in>set (take i vs). \<forall>b\<in>set (drop i vs). ?P a b"
    unfolding sorted_wrt_append by simp_all
  have a: "\<forall>a\<in>set (take i vs). ?P a x"
  proof
    fix a assume "a \<in> set (take i vs)"
    then obtain j where "j < length (take i vs)" "take i vs ! j = a"
      by (auto simp: in_set_conv_nth)
    with lo i show "?P a x" by auto
  qed
  have b: "\<forall>b\<in>set (drop i vs). ?P x b"
  proof
    fix b assume "b \<in> set (drop i vs)"
    then obtain j where "j < length (drop i vs)" "drop i vs ! j = b"
      by (auto simp: in_set_conv_nth)
    with hi [rule_format, of "i + j"] i show "?P x b" by auto
  qed
  show ?thesis
    unfolding values_sorted_def insert_at_def sorted_wrt_append
    using s1 s2 s3 a b by auto
qed

lemma values_sorted_update:
  assumes "values_sorted vs" "vname v = vname (vs ! i)"
  shows "values_sorted (vs[i := v])"
proof -
  have "map vname (vs[i := v]) = map vname vs"
    using assms(2) by (simp add: map_update) (metis list_update_id map_update)
  with assms(1) show ?thesis
    unfolding values_sorted_def sorted_wrt_map [symmetric, of "\<lambda>a b. strcmpiW a b < 0" vname]
    by simp
qed

text \<open>What \<^verbatim>\<open>set_value\<close> leaves of the key and of the freed buffers.\<close>

lemma set_value_effect:
  assumes sv: "set_value key nm type datalen data s = (key', s')"
      and fv: "find_value key nm = (found, index)"
  shows "if alloc_failures s' = alloc_failures s then
           same_but_nb_values key'
             (touch_key
                (set_kvalues
                   (if found then
                      (kvalues key)[nat index := (kvalues key ! nat index)
                         \<lparr>vtype := type, vlen := datalen,
                          vdata := (if datalen = 0 then None else Some (take datalen data))\<rparr>]
                    else
                      insert_at (nat index)
                        \<lparr>vname = nm, vtype = type, vlen = datalen,
                         vdata = (if datalen = 0 then None else Some (take datalen data))\<rparr>
                        (kvalues key))
                   key) s) \<and>
           freed s' =
             (if found then
                (case vdata (kvalues key ! nat index) of
                   None \<Rightarrow> freed s | Some old \<Rightarrow> old # freed s)
              else freed s)
         else same_but_nb_values key' key"
proof (cases "datalen = 0")
  case True
  with sv have "(case insert_value key nm s of
             (None, key1, s2) \<Rightarrow> (key1, free_data None s2)
           | (Some index, key1, s2) \<Rightarrow>
               (let v = kvalues key1 ! nat index;
                    s3 = free_data (vdata v) s2;
                    v1 = v\<lparr>vtype := type, vlen := 0, vdata := None\<rparr>
                in (touch_key (set_kvalues ((kvalues key1)[nat index := v1]) key1) s3, s3)))
            = (key', s')"
    by (simp add: set_value_def)
  from set_value_tail [OF this fv] True show ?thesis by (simp split: if_splits)
next
  case False
  obtain b s1 where ma: "mem_alloc s = (b, s1)" by (metis prod.exhaust)
  note m = mem_alloc_fields [OF ma]
  show ?thesis
  proof (cases b)
    case False
    with sv ma \<open>datalen \<noteq> 0\<close> have "key' = key" "s' = s1"
      by (simp_all add: set_value_def)
    with m False show ?thesis by (simp add: same_but_nb_values_def)
  next
    case True
    with sv ma \<open>datalen \<noteq> 0\<close> have "(case insert_value key nm s1 of
             (None, key1, s2) \<Rightarrow> (key1, free_data (Some (take datalen data)) s2)
           | (Some index, key1, s2) \<Rightarrow>
               (let v = kvalues key1 ! nat index;
                    s3 = free_data (vdata v) s2;
                    v1 = v\<lparr>vtype := type, vlen := datalen, vdata := Some (take datalen data)\<rparr>
                in (touch_key (set_kvalues ((kvalues key1)[nat index := v1]) key1) s3, s3)))
            = (key', s')"
      by (simp add: set_value_def)
    from set_value_tail [OF this fv] have "if alloc_failures s' = alloc_failures s1 then
           same_but_nb_values key'
             (touch_key
                (set_kvalues
                   (if found then
                      (kvalues key)[nat index := (kvalues key ! nat index)
                         \<lparr>vtype := type, vlen := datalen, vdata := Some (take datalen data)\<rparr>]
                    else
                      insert_at (nat index)
                        \<lparr>vname = nm, vtype = type, vlen = datalen, vdata = Some (take datalen data)\<rparr>
                        (kvalues key))
                   key) s1) \<and>
           freed s' =
             (if found then
                (case vdata (kvalues key ! nat index) of
                   None \<Rightarrow> freed s1 | Some old \<Rightarrow> old # freed s1)
              else freed s1)
         else same_but_nb_values key' key" .
    moreover have "touch_key k s1 = touch_key k s" for k
      using m by (simp add: touch_key_def)
    ultimately show ?thesis using m True \<open>datalen \<noteq> 0\<close>
      by (simp split: if_splits option.splits)
  qed
qed

text \<open>
  C9. The claim as stated fails: on an allocation failure the key is not left as it
  was. With a key that has no value array yet, the copy of the data and the new array
  granted and the copy of the name refused, \<^verbatim>\<open>set_value\<close> fails after
  \<^verbatim>\<open>grow_values\<close> has given the key an array of 8 slots: \<^verbatim>\<open>nb_values\<close> goes from 0
  to 8.
\<close>

theorem set_value_failure_grows_array:
  "set_value (Key (Some [0x4B]) None 0 [] 0 [] 0 0 5) [0x76] 4 4 [1, 2, 3, 4, 5]
     (initial_server 9 [True, True, False])
   = (Key (Some [0x4B]) None 0 [] 8 [] 0 0 5,
      (initial_server 9 []) \<lparr>alloc_failures := 1, freed := [[1, 2, 3, 4]]\<rparr>)"
  by code_simp

text \<open>
  C9, amended. \<open>find_value\<close> gives, before the call, whether the name is present and
  its index or insertion point. If an allocation request failed during the call (the
  count of failures has moved), the key is as it was in every field but the allocated
  size of its value array: its values, with their names, types, lengths and data, its
  modification time and its level are unchanged. If none failed, the key is the key
  before the call with the value at that index replaced (when the name was present) or
  a new value of that name inserted there (when it was not), holding the given type,
  the given length and a copy of the first \<open>datalen\<close> bytes (no buffer when \<open>datalen\<close>
  is 0), and touched; the data buffer that the value held before, if any, has been
  given to \<^verbatim>\<open>free\<close>. The index is tied to the name: a value that is found has the
  name, without regard to case; and when the values are in the order of their names,
  as \<^verbatim>\<open>insert_value\<close> keeps them, a name that is not found is the name of no value,
  and the values are in order after the call.
\<close>

theorem set_value_atomic:
  assumes sv: "set_value key nm type datalen data s = (key', s')"
      and fv: "find_value key nm = (found, index)"
  shows "(if alloc_failures s' = alloc_failures s then
           same_but_nb_values key'
             (touch_key
                (set_kvalues
                   (if found then
                      (kvalues key)[nat index := (kvalues key ! nat index)
                         \<lparr>vtype := type, vlen := datalen,
                          vdata := (if datalen = 0 then None else Some (take datalen data))\<rparr>]
                    else
                      insert_at (nat index)
                        \<lparr>vname = nm, vtype = type, vlen = datalen,
                         vdata = (if datalen = 0 then None else Some (take datalen data))\<rparr>
                        (kvalues key))
                   key) s) \<and>
           freed s' =
             (if found then
                (case vdata (kvalues key ! nat index) of
                   None \<Rightarrow> freed s | Some old \<Rightarrow> old # freed s)
              else freed s)
         else same_but_nb_values key' key) \<and>
        (found \<longrightarrow>
           0 \<le> index \<and> nat index < length (kvalues key) \<and>
           strcmpiW (vname (kvalues key ! nat index)) nm = 0) \<and>
        (values_sorted (kvalues key) \<longrightarrow>
           (\<not> found \<longrightarrow> (\<forall>v\<in>set (kvalues key). strcmpiW (vname v) nm \<noteq> 0)) \<and>
           values_sorted (kvalues key'))"
proof (intro conjI impI)
  note eff = set_value_effect [OF sv fv]
  show "if alloc_failures s' = alloc_failures s then
           same_but_nb_values key'
             (touch_key
                (set_kvalues
                   (if found then
                      (kvalues key)[nat index := (kvalues key ! nat index)
                         \<lparr>vtype := type, vlen := datalen,
                          vdata := (if datalen = 0 then None else Some (take datalen data))\<rparr>]
                    else
                      insert_at (nat index)
                        \<lparr>vname = nm, vtype = type, vlen = datalen,
                         vdata = (if datalen = 0 then None else Some (take datalen data))\<rparr>
                        (kvalues key))
                   key) s) \<and>
           freed s' =
             (if found then
                (case vdata (kvalues key ! nat index) of
                   None \<Rightarrow> freed s | Some old \<Rightarrow> old # freed s)
              else freed s)
         else same_but_nb_values key' key"
    by (rule eff)
  {
    assume found
    with fv have "find_value key nm = (True, index)" by simp
    from find_value_match [OF this]
    show "0 \<le> index" "nat index < length (kvalues key)"
      "strcmpiW (vname (kvalues key ! nat index)) nm = 0" by simp_all
  }
  {
    assume srt: "values_sorted (kvalues key)" and nf: "\<not> found"
    with fv have "find_value key nm = (False, index)" by simp
    note ab = find_value_absent [OF srt this]
    show "\<forall>v\<in>set (kvalues key). strcmpiW (vname v) nm \<noteq> 0"
    proof
      fix v assume "v \<in> set (kvalues key)"
      then obtain j where j: "j < length (kvalues key)" "kvalues key ! j = v"
        by (auto simp: in_set_conv_nth)
      show "strcmpiW (vname v) nm \<noteq> 0"
      proof (cases "j < nat index")
        case True
        with ab j show ?thesis by auto
      next
        case False
        then have "nat index \<le> j" by simp
        with ab j(1) have "strcmpiW (vname (kvalues key ! j)) nm > 0" by blast
        with j show ?thesis by simp
      qed
    qed
  }
  {
    assume srt: "values_sorted (kvalues key)"
    let ?d = "if datalen = 0 then None else Some (take datalen data)"
    have tk: "kvalues (touch_key k s) = kvalues k" for k
      by (simp add: touch_key_def)
    show "values_sorted (kvalues key')"
    proof (cases "alloc_failures s' = alloc_failures s")
      case False
      with eff have "kvalues key' = kvalues key" by (simp add: same_but_nb_values_def)
      with srt show ?thesis by simp
    next
      case ok: True
      show ?thesis
      proof (cases found)
        case True
        with eff ok have "kvalues key' = (kvalues key)[nat index := (kvalues key ! nat index)
                         \<lparr>vtype := type, vlen := datalen, vdata := ?d\<rparr>]"
          by (simp add: same_but_nb_values_def tk)
        with values_sorted_update [OF srt, of _ "nat index"] show ?thesis by simp
      next
        case False
        with fv have "find_value key nm = (False, index)" by simp
        note ab = find_value_absent [OF srt this]
        let ?x = "\<lparr>vname = nm, vtype = type, vlen = datalen, vdata = ?d\<rparr>"
        from eff ok False have kv: "kvalues key' = insert_at (nat index) ?x (kvalues key)"
          by (simp add: same_but_nb_values_def tk)
        have "values_sorted (insert_at (nat index) ?x (kvalues key))"
        proof (rule values_sorted_insert [OF srt])
          from ab show "nat index \<le> length (kvalues key)" by simp
          from ab show "\<forall>j. j < nat index \<longrightarrow> strcmpiW (vname (kvalues key ! j)) (vname ?x) < 0"
            by simp
          show "\<forall>j. nat index \<le> j \<and> j < length (kvalues key) \<longrightarrow>
                  strcmpiW (vname ?x) (vname (kvalues key ! j)) < 0"
          proof (intro allI impI)
            fix j assume "nat index \<le> j \<and> j < length (kvalues key)"
            with ab have "strcmpiW (vname (kvalues key ! j)) nm > 0" by simp
            then show "strcmpiW (vname ?x) (vname (kvalues key ! j)) < 0"
              using strcmpiW_neg [of "vname (kvalues key ! j)" nm] by simp
          qed
        qed
        with kv show ?thesis by simp
      qed
    qed
  }
qed

theorem set_value_atomic_witness:
  "set_value
     (Key (Some [0x4B]) None 0 [] 8
        [\<lparr>vname = [0x76], vtype = 1, vlen = 2, vdata = Some [7, 7]\<rparr>] 0 0 5)
     [0x56] 4 4 [1, 2, 3, 4, 5] ((initial_server 9 [True]) \<lparr>current_level := 3\<rparr>)
   = (Key (Some [0x4B]) None 0 [] 8
        [\<lparr>vname = [0x76], vtype = 4, vlen = 4, vdata = Some [1, 2, 3, 4]\<rparr>] 0 3 9,
      (initial_server 9 []) \<lparr>current_level := 3, freed := [[7, 7]]\<rparr>) \<and>
   find_value
     (Key (Some [0x4B]) None 0 [] 8
        [\<lparr>vname = [0x76], vtype = 1, vlen = 2, vdata = Some [7, 7]\<rparr>] 0 0 5) [0x56]
   = (True, 0) \<and>
   strcmpiW [0x76] [0x56] = 0 \<and>
   values_sorted [\<lparr>vname = [0x76], vtype = 1, vlen = 2, vdata = Some [7, 7]\<rparr>] \<and>
   values_sorted [\<lparr>vname = [0x76], vtype = 4, vlen = 4, vdata = Some [1, 2, 3, 4]\<rparr>] \<and>
   set_value
     (Key (Some [0x4B]) None 0 [] 8
        [\<lparr>vname = [0x76], vtype = 1, vlen = 2, vdata = Some [7, 7]\<rparr>] 0 0 5)
     [0x61] 4 4 [1, 2, 3, 4, 5] (initial_server 9 [True, False])
   = (Key (Some [0x4B]) None 0 [] 8
        [\<lparr>vname = [0x76], vtype = 1, vlen = 2, vdata = Some [7, 7]\<rparr>] 0 0 5,
      (initial_server 9 []) \<lparr>alloc_failures := 1, freed := [[1, 2, 3, 4]]\<rparr>) \<and>
   find_value
     (Key (Some [0x4B]) None 0 [] 8
        [\<lparr>vname = [0x76], vtype = 1, vlen = 2, vdata = Some [7, 7]\<rparr>] 0 0 5) [0x61]
   = (False, 0) \<and>
   strcmpiW [0x76] [0x61] \<noteq> 0"
proof -
  let ?k = "Key (Some [0x4B]) None 0 [] 8
        [\<lparr>vname = [0x76], vtype = 1, vlen = 2, vdata = Some [7, 7]\<rparr>] 0 0 5"
  have a1: "set_value ?k [0x56] 4 4 [1, 2, 3, 4, 5]
       ((initial_server 9 [True]) \<lparr>current_level := 3\<rparr>)
   = (Key (Some [0x4B]) None 0 [] 8
        [\<lparr>vname = [0x76], vtype = 4, vlen = 4, vdata = Some [1, 2, 3, 4]\<rparr>] 0 3 9,
      (initial_server 9 []) \<lparr>current_level := 3, freed := [[7, 7]]\<rparr>)"
    by code_simp
  have b1: "find_value ?k [0x56] = (True, 0)" by code_simp
  have s1: "values_sorted (kvalues ?k)" by (simp add: values_sorted_def)
  from set_value_atomic [OF a1 b1] s1
  have c1: "strcmpiW [0x76] [0x56] = 0"
    and d1: "values_sorted [\<lparr>vname = [0x76], vtype = 4, vlen = 4, vdata = Some [1, 2, 3, 4]\<rparr>]"
    by simp_all
  have a2: "set_value ?k [0x61] 4 4 [1, 2, 3, 4, 5] (initial_server 9 [True, False])
   = (?k, (initial_server 9 []) \<lparr>alloc_failures := 1, freed := [[1, 2, 3, 4]]\<rparr>)"
    by code_simp
  have b2: "find_value ?k [0x61] = (False, 0)" by code_simp
  from set_value_atomic [OF a2 b2] s1
  have c2: "strcmpiW [0x76] [0x61] \<noteq> 0" by simp
  from a1 b1 c1 s1 d1 a2 b2 c2 show ?thesis by simp
qed

section \<open>The escape round trip\<close>

text \<open>The text that \<^verbatim>\<open>dump_strW\<close> writes for one code unit, given those that follow.\<close>

definition dump_unit :: "WCHAR \<Rightarrow> WCHAR list \<Rightarrow> char \<Rightarrow> char \<Rightarrow> string" where
  "dump_unit c cs e0 e1 =
     (if c > 127 then
        (if next_is (\<lambda>d. d < 128 \<and> isxdigit (char_of_wchar d)) cs
         then bslash # CHR ''x'' # zero_pad 4 (fmt_x (unat c))
         else bslash # CHR ''x'' # fmt_x (unat c))
      else if c < 32 then
        (if c = 0 \<and> cs = [] then []
         else if escapes ! unat c \<noteq> CHR ''.'' then [bslash, escapes ! unat c]
         else if next_is (\<lambda>d. 0x30 \<le> d \<and> d \<le> 0x37) cs then
           bslash # zero_pad 3 (fmt_o (unat c))
         else bslash # fmt_o (unat c))
      else
        (if c = 0x5C \<or> uint c = char_int e0 \<or> uint c = char_int e1 then [bslash] else [])
        @ [char_of_wchar c])"

lemma dump_strW_Cons: "dump_strW (c # cs) e0 e1 = dump_unit c cs e0 e1 @ dump_strW cs e0 e1"
  by (simp add: dump_unit_def)

lemma digits_less: "2 \<le> b \<Longrightarrow> d \<in> set (digits b n) \<Longrightarrow> d < b"
proof (induction b n rule: digits.induct)
  case (1 b n)
  then show ?case
    by (subst (asm) (2) digits.simps) (auto split: if_splits)
qed

definition digits_value :: "nat \<Rightarrow> nat list \<Rightarrow> nat" where
  "digits_value b ds = foldl (\<lambda>a d. a * b + d) 0 ds"

lemma digits_value_digits: "2 \<le> b \<Longrightarrow> digits_value b (digits b n) = n"
proof (induction b n rule: digits.induct)
  case (1 b n)
  show ?case
  proof (cases "n < b")
    case True
    then show ?thesis by (subst digits.simps) (simp add: digits_value_def)
  next
    case False
    with 1 have "digits_value b (digits b (n div b)) = n div b" by simp
    with False "1.prems" show ?thesis
      by (subst digits.simps) (simp add: digits_value_def)
  qed
qed

lemma digits_length: "2 \<le> b \<Longrightarrow> n < b ^ k \<Longrightarrow> 0 < k \<Longrightarrow> length (digits b n) \<le> k"
proof (induction b n arbitrary: k rule: digits.induct)
  case (1 b n)
  show ?case
  proof (cases "n < b")
    case True
    with "1.prems" show ?thesis by (subst digits.simps) simp
  next
    case False
    with "1.prems" obtain k' where k: "k = Suc k'" by (cases k) auto
    with False "1.prems" have "0 < k'" by (cases k') auto
    from "1.prems" k have "n div b < b ^ k'"
      by (simp add: less_mult_imp_div_less mult.commute)
    with 1 False \<open>0 < k'\<close> have "length (digits b (n div b)) \<le> k'" by simp
    with False "1.prems" k show ?thesis by (subst digits.simps) simp
  qed
qed

lemma digits_nonempty: "digits b n \<noteq> []"
  by (subst digits.simps) simp

lemma hex_digit_char: "d < 16 \<Longrightarrow> isxdigit (digit_char d) \<and> to_hex (digit_char d) = d"
proof -
  have "\<forall>d \<in> set [0..<16]. isxdigit (digit_char d) \<and> to_hex (digit_char d) = d"
    by code_simp
  then show "d < 16 \<Longrightarrow> isxdigit (digit_char d) \<and> to_hex (digit_char d) = d" by simp
qed

lemma oct_digit_char: "d < 8 \<Longrightarrow> isoctal (digit_char d) \<and> of_char (digit_char d) - 0x30 = d"
proof -
  have "\<forall>d \<in> set [0..<8]. isoctal (digit_char d) \<and> of_char (digit_char d) - 0x30 = d"
    by code_simp
  then show "d < 8 \<Longrightarrow> isoctal (digit_char d) \<and> of_char (digit_char d) - 0x30 = d" by simp
qed


definition stops :: "(char \<Rightarrow> bool) \<Rightarrow> string \<Rightarrow> bool" where
  "stops P T = (case T of [] \<Rightarrow> True | t # ts \<Rightarrow> \<not> P t)"

lemma hex_more_digits:
  "list_all (\<lambda>d. d < 16) ds \<Longrightarrow> length ds \<le> k \<Longrightarrow> length ds = k \<or> stops isxdigit T \<Longrightarrow>
   hex_more k (of_nat a) (map digit_char ds @ T) = (of_nat (foldl (\<lambda>a d. a * 16 + d) a ds), T)"
proof (induction ds arbitrary: k a)
  case Nil
  then show ?case by (cases k; cases T) (auto simp: stops_def)
next
  case (Cons d ds)
  then obtain k' where k: "k = Suc k'" by (cases k) auto
  from Cons.prems have d: "d < 16" by simp
  have "hex_more k' (of_nat (a * 16 + d)) (map digit_char ds @ T)
        = (of_nat (foldl (\<lambda>a d. a * 16 + d) (a * 16 + d) ds), T)"
    using Cons.prems k by (intro Cons.IH) auto
  with hex_digit_char [OF d] k show ?case by simp
qed

lemma oct_more_digits:
  "list_all (\<lambda>d. d < 8) ds \<Longrightarrow> length ds \<le> k \<Longrightarrow> length ds = k \<or> stops isoctal T \<Longrightarrow>
   oct_more k (of_nat a) (map digit_char ds @ T) = (of_nat (foldl (\<lambda>a d. a * 8 + d) a ds), T)"
proof (induction ds arbitrary: k a)
  case Nil
  then show ?case by (cases k; cases T) (auto simp: stops_def)
next
  case (Cons d ds)
  then obtain k' where k: "k = Suc k'" by (cases k) auto
  from Cons.prems have d: "d < 8" by simp
  have "oct_more k' (of_nat (a * 8 + d)) (map digit_char ds @ T)
        = (of_nat (foldl (\<lambda>a d. a * 8 + d) (a * 8 + d) ds), T)"
    using Cons.prems k by (intro Cons.IH) auto
  with oct_digit_char [OF d] k show ?case by simp
qed

lemma parse_escape_hex:
  assumes "list_all (\<lambda>d. d < 16) ds" "ds \<noteq> []" "length ds \<le> 4"
    "length ds = 4 \<or> stops isxdigit T"
  shows "parse_escape (CHR ''x'' # map digit_char ds @ T) = Some (of_nat (digits_value 16 ds), T)"
proof -
  from assms obtain d ds' where ds: "ds = d # ds'" by (cases ds) auto
  with assms have d: "d < 16" by simp
  have "hex_more 3 (of_nat d) (map digit_char ds' @ T)
        = (of_nat (foldl (\<lambda>a d. a * 16 + d) d ds'), T)"
    using assms ds by (intro hex_more_digits) auto
  with hex_digit_char [OF d] ds show ?thesis by (simp add: digits_value_def)
qed

lemma oct_digit_no_letter:
  "d < 8 \<Longrightarrow> digit_char d \<notin> set ''abefnrtvx''"
proof -
  have "\<forall>d \<in> set [0..<8]. digit_char d \<notin> set ''abefnrtvx''" by code_simp
  then show "d < 8 \<Longrightarrow> digit_char d \<notin> set ''abefnrtvx''" by simp
qed

lemma parse_escape_oct:
  assumes "list_all (\<lambda>d. d < 8) ds" "ds \<noteq> []" "length ds \<le> 3"
    "length ds = 3 \<or> stops isoctal T"
  shows "parse_escape (map digit_char ds @ T) = Some (of_nat (digits_value 8 ds), T)"
proof -
  from assms obtain d ds' where ds: "ds = d # ds'" by (cases ds) auto
  with assms have d: "d < 8" by simp
  have "oct_more 2 (of_nat d) (map digit_char ds' @ T)
        = (of_nat (foldl (\<lambda>a d. a * 8 + d) d ds'), T)"
    using assms ds by (intro oct_more_digits) auto
  with oct_digit_char [OF d] oct_digit_no_letter [OF d] ds show ?thesis
    by (simp add: digits_value_def)
qed

lemma zero_pad_digits:
  "zero_pad w (map digit_char ds) = map digit_char (replicate (w - length ds) 0 @ ds)"
  by (simp add: zero_pad_def digit_char_def)

lemma digits_value_pad: "digits_value b (replicate k 0 @ ds) = digits_value b ds"
  by (induction k) (simp_all add: digits_value_def)

lemma list_all_digits: "2 \<le> b \<Longrightarrow> list_all (\<lambda>d. d < b) (digits b n)"
  by (simp add: list_all_iff digits_less)



definition escape_letter :: "char \<Rightarrow> bool" where
  "escape_letter c = (c \<in> set ''abefnrtvx'' \<or> isoctal c)"

lemma bslash_facts [simp]:
  "\<not> isxdigit bslash" "\<not> isoctal bslash" "bslash \<noteq> CHR 0x00" "\<not> escape_letter bslash"
  "bslash \<noteq> CHR ''x''"
  by (simp_all add: bslash_def isxdigit_def isdigit_def isoctal_def escape_letter_def)

lemma of_char_char_of_wchar:
  "c \<le> 127 \<Longrightarrow> (of_char (char_of_wchar c) :: nat) = unat c"
  by (simp add: char_of_wchar_def word_le_nat_alt)

lemma wchar_of_char_of_wchar:
  "c \<le> 127 \<Longrightarrow> wchar_of_char (char_of_wchar c) = c"
  by (simp add: wchar_of_char_def char_int_def of_char_char_of_wchar word_le_nat_alt)

lemma char_int_char_of_wchar:
  "c \<le> 127 \<Longrightarrow> char_int (char_of_wchar c) = uint c"
  by (simp add: char_int_def of_char_char_of_wchar word_le_nat_alt)

lemma char_of_wchar_eq:
  assumes c: "c \<le> 127"
  shows "char_of_wchar c = e \<longleftrightarrow> uint c = char_int e"
proof
  assume "char_of_wchar c = e"
  then have "char_int e = char_int (char_of_wchar c)" by (simp only:)
  also have "\<dots> = uint c" using c by (rule char_int_char_of_wchar)
  finally show "uint c = char_int e" by (rule sym)
next
  assume e: "uint c = char_int e"
  have "0 \<le> uint c" by simp
  with e nat_of_char_less_256 [of e] have lt: "(of_char e :: nat) < 128"
    unfolding char_int_def by (cases "(of_char e :: nat) < 128") simp_all
  then have "char_int e = int (of_char e)" by (simp only: char_int_def if_True)
  with e have "int (unat c) = int (of_char e)" by (simp only: uint_nat [symmetric] of_nat_unat)
  then have "unat c = of_char e" by (simp only: of_nat_eq_iff)
  then have "char_of (unat c) = (char_of (of_char e :: nat) :: char)" by (simp only:)
  then show "char_of_wchar c = e" by (simp only: char_of_wchar_def char_of_char)
qed

lemma escapes_named:
  assumes "n < 32" "escapes ! n \<noteq> CHR ''.''"
  shows "parse_escape (escapes ! n # T) = Some (of_nat n, T)"
proof -
  have "\<forall>n \<in> set [0..<32]. escapes ! n \<noteq> CHR ''.'' \<longrightarrow> n \<in> set [7, 8, 9, 10, 11, 12, 13, 27]"
    by code_simp
  with assms have "n \<in> set [7, 8, 9, 10, 11, 12, 13, 27]" by simp
  then consider "n = 7" | "n = 8" | "n = 9" | "n = 10" | "n = 11" | "n = 12" | "n = 13"
    | "n = 27" by auto
  then show ?thesis
  proof cases
    case 1 then show ?thesis by (simp add: escapes_def)
  next
    case 2 then show ?thesis by (simp add: escapes_def)
  next
    case 3 then show ?thesis by (simp add: escapes_def)
  next
    case 4 then show ?thesis by (simp add: escapes_def)
  next
    case 5 then show ?thesis by (simp add: escapes_def)
  next
    case 6 then show ?thesis by (simp add: escapes_def)
  next
    case 7 then show ?thesis by (simp add: escapes_def)
  next
    case 8 then show ?thesis by (simp add: escapes_def)
  qed
qed

lemma escapes_facts:
  assumes "n < 32"
  shows "escapes ! n \<noteq> CHR 0x00"
proof -
  have "\<forall>n \<in> set [0..<32]. escapes ! n \<noteq> CHR 0x00" by code_simp
  with assms show ?thesis by simp
qed



lemma dump_unit_cases:
  assumes "\<not> (c = 0 \<and> cs = [])"
  shows "(\<exists>t. dump_unit c cs e0 e1 = bslash # t) \<or>
         (dump_unit c cs e0 e1 = [char_of_wchar c] \<and> 32 \<le> c \<and> c \<le> 127 \<and> c \<noteq> 0x5C \<and>
          uint c \<noteq> char_int e0 \<and> uint c \<noteq> char_int e1)"
  using assms by (auto simp: dump_unit_def not_less)

lemma dump_strW_nul [simp]: "dump_strW [0] e0 e1 = []"
  by simp

lemma tail_stops_hex:
  assumes nh: "\<not> next_is (\<lambda>d. d < 128 \<and> isxdigit (char_of_wchar d)) cs"
    and st: "stops isxdigit T"
  shows "stops isxdigit (dump_strW cs e0 e1 @ T)"
proof (cases cs)
  case Nil
  with st show ?thesis by simp
next
  case (Cons d ds)
  show ?thesis
  proof (cases "d = 0 \<and> ds = []")
    case True
    with Cons st show ?thesis by (simp only: dump_strW_nul append_Nil)
  next
    case False
    from dump_unit_cases [OF this, of e0 e1] show ?thesis
    proof
      assume "\<exists>t. dump_unit d ds e0 e1 = bslash # t"
      then show ?thesis unfolding Cons dump_strW_Cons by (auto simp: stops_def)
    next
      assume a: "dump_unit d ds e0 e1 = [char_of_wchar d] \<and> 32 \<le> d \<and> d \<le> 127 \<and> d \<noteq> 0x5C \<and>
            uint d \<noteq> char_int e0 \<and> uint d \<noteq> char_int e1"
      then have "d < 128" by (simp add: word_le_nat_alt word_less_nat_alt)
      with nh Cons have "\<not> isxdigit (char_of_wchar d)" by (simp add: next_is_def)
      with a show ?thesis unfolding Cons dump_strW_Cons by (simp add: stops_def)
    qed
  qed
qed

lemma tail_stops_oct:
  assumes nh: "\<not> next_is (\<lambda>d. 0x30 \<le> d \<and> d \<le> 0x37) cs"
    and st: "stops isoctal T"
  shows "stops isoctal (dump_strW cs e0 e1 @ T)"
proof (cases cs)
  case Nil
  with st show ?thesis by simp
next
  case (Cons d ds)
  show ?thesis
  proof (cases "d = 0 \<and> ds = []")
    case True
    with Cons st show ?thesis by (simp only: dump_strW_nul append_Nil)
  next
    case False
    from dump_unit_cases [OF this, of e0 e1] show ?thesis
    proof
      assume "\<exists>t. dump_unit d ds e0 e1 = bslash # t"
      then show ?thesis unfolding Cons dump_strW_Cons by (auto simp: stops_def)
    next
      assume a: "dump_unit d ds e0 e1 = [char_of_wchar d] \<and> 32 \<le> d \<and> d \<le> 127 \<and> d \<noteq> 0x5C \<and>
            uint d \<noteq> char_int e0 \<and> uint d \<noteq> char_int e1"
      then have d: "d \<le> 127" by simp
      from nh Cons have "\<not> (0x30 \<le> d \<and> d \<le> 0x37)" by (simp add: next_is_def)
      then have "\<not> isoctal (char_of_wchar d)"
        by (simp add: isoctal_def of_char_char_of_wchar [OF d] word_le_nat_alt)
      with a show ?thesis unfolding Cons dump_strW_Cons by (simp add: stops_def)
    qed
  qed
qed


lemma parse_escape_plain:
  "\<not> escape_letter ch \<Longrightarrow> parse_escape (ch # T) = Some (wchar_of_char ch, T)"
  by (simp add: escape_letter_def)

declare parse_escape.simps [simp del]

lemma parse_char_bslash: "parse_char (bslash # p) = parse_escape p"
  by (simp add: parse_char_def)

lemma char_int_bslash: "char_int bslash = 0x5C"
  by (simp add: char_int_def bslash_def)

lemma parse_char_hex_unit:
  assumes c: "c > 127" and sx: "stops isxdigit T"
  shows "parse_char (dump_unit c cs e0 e1 @ dump_strW cs e0 e1 @ T)
         = Some (c, dump_strW cs e0 e1 @ T)"
proof -
  let ?T = "dump_strW cs e0 e1 @ T"
  let ?ds = "digits 16 (unat c)"
  have "unat c < 16 ^ 4" using unsigned_less [of c, where 'a = nat] by simp
  then have len: "length ?ds \<le> 4" by (intro digits_length) simp_all
  have all: "list_all (\<lambda>d. d < 16) ?ds" by (intro list_all_digits) simp
  have val: "digits_value 16 ?ds = unat c" by (intro digits_value_digits) simp
  show ?thesis
  proof (cases "next_is (\<lambda>d. d < 128 \<and> isxdigit (char_of_wchar d)) cs")
    case True
    let ?ps = "replicate (4 - length ?ds) 0 @ ?ds"
    have "parse_escape (CHR ''x'' # map digit_char ?ps @ ?T) = Some (of_nat (digits_value 16 ?ps), ?T)"
      using len all by (intro parse_escape_hex) (auto simp: list_all_iff)
    then have "parse_escape (CHR ''x'' # zero_pad 4 (fmt_x (unat c)) @ ?T) = Some (c, ?T)"
      unfolding fmt_x_def zero_pad_digits digits_value_pad val by simp
    with c True show ?thesis by (auto simp: dump_unit_def parse_char_bslash)
  next
    case False
    from tail_stops_hex [OF False sx] have st: "stops isxdigit ?T" .
    have "parse_escape (CHR ''x'' # map digit_char ?ds @ ?T) = Some (of_nat (digits_value 16 ?ds), ?T)"
      using len all st digits_nonempty [of 16 "unat c"] by (intro parse_escape_hex) auto
    then have "parse_escape (CHR ''x'' # fmt_x (unat c) @ ?T) = Some (c, ?T)"
      unfolding fmt_x_def val by simp
    with c False show ?thesis by (auto simp: dump_unit_def parse_char_bslash)
  qed
qed

lemma parse_char_low_unit:
  assumes c: "c < 32" and nz: "\<not> (c = 0 \<and> cs = [])" and so: "stops isoctal T"
  shows "parse_char (dump_unit c cs e0 e1 @ dump_strW cs e0 e1 @ T)
         = Some (c, dump_strW cs e0 e1 @ T)"
proof -
  let ?T = "dump_strW cs e0 e1 @ T"
  let ?ds = "digits 8 (unat c)"
  from c have n: "unat c < 32" by (simp add: word_less_nat_alt)
  from c have c': "\<not> c > 127" by (simp add: word_less_nat_alt)
  from n have "unat c < 8 ^ 2" by simp
  then have "length ?ds \<le> 2" by (intro digits_length) simp_all
  then have len: "length ?ds \<le> 3" by simp
  have all: "list_all (\<lambda>d. d < 8) ?ds" by (intro list_all_digits) simp
  have val: "digits_value 8 ?ds = unat c" by (intro digits_value_digits) simp
  show ?thesis
  proof (cases "escapes ! unat c \<noteq> CHR ''.''")
    case True
    from escapes_named [OF n True, of ?T] c c' nz True show ?thesis
      by (auto simp: dump_unit_def parse_char_bslash)
  next
    case named: False
    show ?thesis
    proof (cases "next_is (\<lambda>d. 0x30 \<le> d \<and> d \<le> 0x37) cs")
      case True
      let ?ps = "replicate (3 - length ?ds) 0 @ ?ds"
      have "parse_escape (map digit_char ?ps @ ?T) = Some (of_nat (digits_value 8 ?ps), ?T)"
        using len all by (intro parse_escape_oct) (auto simp: list_all_iff)
      then have "parse_escape (zero_pad 3 (fmt_o (unat c)) @ ?T) = Some (c, ?T)"
        unfolding fmt_o_def zero_pad_digits digits_value_pad val by simp
      with c c' nz named True show ?thesis by (auto simp: dump_unit_def parse_char_bslash)
    next
      case False
      from tail_stops_oct [OF False so] have st: "stops isoctal ?T" .
      have "parse_escape (map digit_char ?ds @ ?T) = Some (of_nat (digits_value 8 ?ds), ?T)"
        using len all st digits_nonempty [of 8 "unat c"] by (intro parse_escape_oct) auto
      then have "parse_escape (fmt_o (unat c) @ ?T) = Some (c, ?T)"
        unfolding fmt_o_def val by simp
      with c c' nz named False show ?thesis by (auto simp: dump_unit_def parse_char_bslash)
    qed
  qed
qed

lemma parse_char_plain_unit:
  assumes c: "\<not> c > 127" "\<not> c < 32"
    and d0: "\<not> escape_letter e0" and d1: "\<not> escape_letter e1"
  shows "parse_char (dump_unit c cs e0 e1 @ T) = Some (c, T)"
proof -
  from c have le: "c \<le> 127" by (simp add: not_less)
  have "uint c = 0x5C \<longleftrightarrow> c = 0x5C"
  proof
    assume "uint c = 0x5C"
    then have "word_of_int (uint c) = (word_of_int 0x5C :: 16 word)" by (simp only:)
    then show "c = 0x5C" by simp
  next
    assume "c = 0x5C"
    then show "uint c = 0x5C" by simp
  qed
  then have bs: "char_of_wchar c = bslash \<longleftrightarrow> c = 0x5C"
    unfolding char_of_wchar_eq [OF le] char_int_bslash .
  show ?thesis
  proof (cases "c = 0x5C \<or> uint c = char_int e0 \<or> uint c = char_int e1")
    case True
    then have "char_of_wchar c = bslash \<or> char_of_wchar c = e0 \<or> char_of_wchar c = e1"
      unfolding char_of_wchar_eq [OF le, symmetric] bs by (simp only:)
    with d0 d1 bslash_facts(4) have esc: "\<not> escape_letter (char_of_wchar c)" by metis
    have "dump_unit c cs e0 e1 = [bslash, char_of_wchar c]"
      using c True by (simp add: dump_unit_def)
    then show ?thesis
      by (simp add: parse_char_bslash parse_escape_plain [OF esc] wchar_of_char_of_wchar [OF le])
  next
    case False
    then have "char_of_wchar c \<noteq> bslash" unfolding bs by simp
    moreover have "dump_unit c cs e0 e1 = [char_of_wchar c]"
      using c False by (simp add: dump_unit_def)
    ultimately show ?thesis
      by (simp add: parse_char_def wchar_of_char_of_wchar [OF le])
  qed
qed

lemma parse_char_dump_unit:
  assumes d0: "\<not> escape_letter e0" and d1: "\<not> escape_letter e1"
    and sx: "stops isxdigit T" and so: "stops isoctal T"
    and nz: "\<not> (c = 0 \<and> cs = [])"
  shows "parse_char (dump_unit c cs e0 e1 @ dump_strW cs e0 e1 @ T)
         = Some (c, dump_strW cs e0 e1 @ T)"
proof -
  consider "c > 127" | "c < 32" | "\<not> c > 127" "\<not> c < 32" by blast
  then show ?thesis
  proof cases
    case 1
    then show ?thesis by (rule parse_char_hex_unit [OF _ sx])
  next
    case 2
    then show ?thesis by (rule parse_char_low_unit [OF _ nz so])
  next
    case 3
    then show ?thesis by (rule parse_char_plain_unit [OF _ _ d0 d1])
  qed
qed


lemma dump_unit_head:
  assumes nz: "\<not> (c = 0 \<and> cs = [])" and b1: "e1 \<noteq> bslash"
  shows "\<exists>h t. dump_unit c cs e0 e1 = h # t \<and> h \<noteq> CHR 0x00 \<and> h \<noteq> e1"
  using dump_unit_cases [OF nz, of e0 e1]
proof
  assume "\<exists>t. dump_unit c cs e0 e1 = bslash # t"
  with b1 show ?thesis by auto
next
  assume a: "dump_unit c cs e0 e1 = [char_of_wchar c] \<and> 32 \<le> c \<and> c \<le> 127 \<and> c \<noteq> 0x5C \<and>
          uint c \<noteq> char_int e0 \<and> uint c \<noteq> char_int e1"
  then have le: "c \<le> 127" by simp
  from a have "char_of_wchar c \<noteq> e1" unfolding char_of_wchar_eq [OF le] by simp
  moreover have "char_of_wchar c \<noteq> CHR 0x00"
  proof
    assume "char_of_wchar c = CHR 0x00"
    then have "uint c = char_int (CHR 0x00)" unfolding char_of_wchar_eq [OF le] .
    then have "uint c = 0" by (simp add: char_int_def)
    then have "word_of_int (uint c) = (word_of_int 0 :: 16 word)" by (simp only:)
    then have "c = 0" by simp
    with a show False by simp
  qed
  ultimately show ?thesis using a by simp
qed

text \<open>The code units of a buffer before its last nul, when it ends in one.\<close>

definition strip_nul :: "WCHAR list \<Rightarrow> WCHAR list" where
  "strip_nul s = (if s \<noteq> [] \<and> last s = 0 then butlast s else s)"

lemma strip_nul_Cons: "\<not> (c = 0 \<and> cs = []) \<Longrightarrow> strip_nul (c # cs) = c # strip_nul cs"
  by (auto simp: strip_nul_def)

lemma strip_nul_simps [simp]: "strip_nul [] = []" "strip_nul [0] = []"
  by (simp_all add: strip_nul_def)

lemma strip_nul_id: "s = [] \<or> last s \<noteq> 0 \<Longrightarrow> strip_nul s = s"
  by (auto simp: strip_nul_def)

lemma strip_nul_snoc [simp]: "strip_nul (s @ [0]) = s"
  by (simp add: strip_nul_def)

text \<open>
  The loop of \<^verbatim>\<open>parse_strW\<close> on the text of \<^verbatim>\<open>dump_strW\<close>, when the text that follows
  starts with no digit.
\<close>

lemma parse_loop_units:
  assumes d0: "\<not> escape_letter e0" and d1: "\<not> escape_letter e1" and b1: "e1 \<noteq> bslash"
    and sx: "stops isxdigit T" and so: "stops isoctal T"
  shows "count + 2 * length (strip_nul s) \<le> len \<Longrightarrow>
    parse_strW_loop len e1 (dump_strW s e0 e1 @ T) dest count n
    = parse_strW_loop len e1 T (dest @ strip_nul s) (count + 2 * length (strip_nul s))
        (n + length (dump_strW s e0 e1))"
proof (induction s arbitrary: dest count n)
  case Nil
  show ?case by simp
next
  case (Cons c cs)
  show ?case
  proof (cases "c = 0 \<and> cs = []")
    case True
    then show ?thesis by (simp del: dump_strW.simps)
  next
    case nz: False
    note sn = strip_nul_Cons [OF nz]
    let ?T = "dump_strW cs e0 e1 @ T"
    let ?p = "dump_unit c cs e0 e1 @ ?T"
    from dump_unit_head [OF nz b1, of e0] obtain h t
      where du: "dump_unit c cs e0 e1 = h # t" and h: "h \<noteq> CHR 0x00" "h \<noteq> e1" by blast
    have pc: "parse_char ?p = Some (c, ?T)"
      by (rule parse_char_dump_unit [OF d0 d1 sx so nz])
    have p: "?p = h # (t @ ?T)" by (simp add: du)
    have len: "length ?p - length ?T = length (dump_unit c cs e0 e1)" by simp
    from Cons.prems sn have c2: "\<not> count + 2 > len" by simp
    have "parse_strW_loop len e1 ?p dest count n
          = parse_strW_loop len e1 ?T (dest @ [c]) (count + 2) (n + length (dump_unit c cs e0 e1))"
      apply (subst parse_strW_loop.simps)
      apply (simp only: pc option.case prod.case len)
      apply (simp only: p list.case h c2 if_False)
      done
    also have "\<dots> = parse_strW_loop len e1 T ((dest @ [c]) @ strip_nul cs)
                 (count + 2 + 2 * length (strip_nul cs))
                 (n + length (dump_unit c cs e0 e1) + length (dump_strW cs e0 e1))"
      using Cons.prems sn by (intro Cons.IH) auto
    finally show ?thesis by (simp add: dump_strW_Cons sn add.assoc del: dump_strW.simps)
  qed
qed

lemma parse_loop_dump:
  assumes d0: "\<not> escape_letter e0" and d1: "\<not> escape_letter e1" and x1: "\<not> isxdigit e1"
    and b1: "e1 \<noteq> bslash" and z1: "e1 \<noteq> CHR 0x00"
  shows "s = [] \<or> last s \<noteq> 0 \<Longrightarrow> count + 2 * length s \<le> len \<Longrightarrow>
    parse_strW_loop len e1 (dump_strW s e0 e1 @ e1 # rest) dest count n
    = Parsed (dest @ s, count + 2 * length s, n + length (dump_strW s e0 e1) + 1)"
proof -
  assume l: "s = [] \<or> last s \<noteq> 0" and c: "count + 2 * length s \<le> len"
  from d1 have o1: "\<not> isoctal e1" by (simp add: escape_letter_def)
  from x1 have sx: "stops isxdigit (e1 # rest)" by (simp add: stops_def)
  from o1 have so: "stops isoctal (e1 # rest)" by (simp add: stops_def)
  have "parse_strW_loop len e1 (dump_strW s e0 e1 @ e1 # rest) dest count n
        = parse_strW_loop len e1 (e1 # rest) (dest @ s) (count + 2 * length s)
            (n + length (dump_strW s e0 e1))"
    using parse_loop_units [OF d0 d1 b1 sx so, of count s len dest n] c strip_nul_id [OF l]
    by simp
  also have "\<dots> = Parsed (dest @ s, count + 2 * length s, n + length (dump_strW s e0 e1) + 1)"
    using z1 by (subst parse_strW_loop.simps) simp
  finally show ?thesis .
qed


lemma delimiter_facts:
  "\<not> escape_letter dquote" "\<not> isxdigit dquote" "dquote \<noteq> bslash" "dquote \<noteq> CHR 0x00"
  "\<not> escape_letter CHR ''[''" "\<not> escape_letter CHR '']''" "\<not> isxdigit CHR '']''"
  "CHR '']'' \<noteq> bslash" "CHR '']'' \<noteq> CHR 0x00"
  by (simp_all add: dquote_def bslash_def escape_letter_def isxdigit_def isdigit_def isoctal_def)

text \<open>
  C4. The escape round trip. The source calls \<^verbatim>\<open>dump_strW\<close> with two pairs of
  delimiters, the square brackets for the path of a key and two double quotes for the
  name and the string data of a value, and \<^verbatim>\<open>parse_strW\<close> with the closing one of the
  pair. For both pairs and for every sequence \<open>s\<close> of code units that does not end in a
  nul (a wide string holds no nul at all), \<^verbatim>\<open>parse_strW\<close> on the text of
  \<^verbatim>\<open>dump_strW\<close> for \<open>s\<close> followed by the closing delimiter and by any text, with room
  for \<open>s\<close> and its terminator, stores exactly \<open>s\<close>, sets the length to the bytes of
  \<open>s\<close> and its terminator, and returns the number of characters of the text with the
  delimiter.
\<close>

theorem parse_dump_roundtrip:
  assumes "e0 = CHR ''['' \<and> e1 = CHR '']'' \<or> e0 = dquote \<and> e1 = dquote"
    and "s = [] \<or> last s \<noteq> 0" and "2 * (length s + 1) \<le> len"
  shows "parse_strW len (dump_strW s e0 e1 @ e1 # rest) e1
         = Parsed (s, 2 * (length s + 1), length (dump_strW s e0 e1) + 1)"
proof -
  from assms(1) have "\<not> escape_letter e0" "\<not> escape_letter e1" "\<not> isxdigit e1"
    "e1 \<noteq> bslash" "e1 \<noteq> CHR 0x00"
    using delimiter_facts by auto
  from parse_loop_dump [OF this assms(2), of 2 len rest "[]" 0] assms(3)
  show ?thesis by (simp add: parse_strW_def)
qed

theorem parse_dump_roundtrip_witness:
  "parse_strW 14
     (dump_strW [0x68, 0xE9, 0x6C, 0x6C, 0x6F, 0x0A] dquote dquote @ dquote # ''=x'') dquote
   = Parsed ([0x68, 0xE9, 0x6C, 0x6C, 0x6F, 0x0A], 14,
       length (dump_strW [0x68, 0xE9, 0x6C, 0x6C, 0x6F, 0x0A] dquote dquote) + 1) \<and>
   dump_strW [0x68, 0xE9, 0x6C, 0x6C, 0x6F, 0x0A] dquote dquote
   = ''h'' @ [bslash] @ ''xe9llo'' @ [bslash] @ ''n'' \<and>
   parse_strW 8 (dump_strW [0x5B, 0x5D, 0x5C] CHR ''['' CHR '']'' @ CHR '']'' # '' 7'') CHR '']''
   = Parsed ([0x5B, 0x5D, 0x5C], 8,
       length (dump_strW [0x5B, 0x5D, 0x5C] CHR ''['' CHR '']'') + 1) \<and>
   dump_strW [0x5B, 0x5D, 0x5C] CHR ''['' CHR '']''
   = [bslash] @ ''['' @ [bslash] @ '']'' @ [bslash, bslash]"
proof -
  have a: "parse_strW 14
     (dump_strW [0x68, 0xE9, 0x6C, 0x6C, 0x6F, 0x0A] dquote dquote @ dquote # ''=x'') dquote
   = Parsed ([0x68, 0xE9, 0x6C, 0x6C, 0x6F, 0x0A], 14,
       length (dump_strW [0x68, 0xE9, 0x6C, 0x6C, 0x6F, 0x0A] dquote dquote) + 1)"
    using parse_dump_roundtrip [of dquote dquote "[0x68, 0xE9, 0x6C, 0x6C, 0x6F, 0x0A]" 14 "''=x''"]
    by simp
  have b: "dump_strW [0x68, 0xE9, 0x6C, 0x6C, 0x6F, 0x0A] dquote dquote
   = ''h'' @ [bslash] @ ''xe9llo'' @ [bslash] @ ''n''"
    by code_simp
  have c: "parse_strW 8
     (dump_strW [0x5B, 0x5D, 0x5C] CHR ''['' CHR '']'' @ CHR '']'' # '' 7'') CHR '']''
   = Parsed ([0x5B, 0x5D, 0x5C], 8,
       length (dump_strW [0x5B, 0x5D, 0x5C] CHR ''['' CHR '']'') + 1)"
    using parse_dump_roundtrip [of "CHR ''[''" "CHR '']''" "[0x5B, 0x5D, 0x5C]" 8 "'' 7''"]
    by simp
  have d: "dump_strW [0x5B, 0x5D, 0x5C] CHR ''['' CHR '']''
   = [bslash] @ ''['' @ [bslash] @ '']'' @ [bslash, bslash]"
    by code_simp
  from a b c d show ?thesis by blast
qed

section \<open>Properties of the loader\<close>

subsection \<open>What load_value changes\<close>


lemma set_error_fields [simp]:
  "current_level (set_error e s) = current_level s" "now (set_error e s) = now s"
  "freed (set_error e s) = freed s" "alloc_failures (set_error e s) = alloc_failures s"
  "allocs (set_error e s) = allocs s" "last_error (set_error e s) = Some e"
  by (simp_all add: set_error_def)











subsection \<open>Files that do not start with the header\<close>

text \<open>The text of a file before its first newline.\<close>

definition first_line :: "string \<Rightarrow> string" where
  "first_line f = takeWhile (\<lambda>c. c \<noteq> newline) f"

lemma take_line_newline:
  "take_line k f \<noteq> [] \<Longrightarrow> last (take_line k f) = newline \<Longrightarrow>
   take_line k f = first_line f @ [newline] \<and> newline \<in> set f"
  by (induction k f rule: take_line.induct) (auto simp: first_line_def split: if_splits)

lemma take_line_no_newline:
  "\<not> (take_line k f \<noteq> [] \<and> last (take_line k f) = newline) \<Longrightarrow>
   take_line k f = take k (first_line f) \<and> newline \<notin> set (take_line k f) \<and>
   (length (take_line k f) < k \<longrightarrow> newline \<notin> set f)"
  by (induction k f rule: take_line.induct) (auto simp: first_line_def split: if_splits)

lemma first_line_drop:
  "n \<le> length (first_line f) \<Longrightarrow>
   first_line (drop n f) = drop n (first_line f) \<and> (newline \<in> set (drop n f) \<longleftrightarrow> newline \<in> set f)"
proof (induction f arbitrary: n)
  case Nil
  then show ?case by (simp add: first_line_def)
next
  case (Cons c f)
  then show ?case by (cases n) (auto simp: first_line_def split: if_splits)
qed

lemma first_line_no_newline: "newline \<notin> set f \<Longrightarrow> first_line f = f"
  by (induction f) (auto simp: first_line_def)

lemma first_line_prefix: "take (length (first_line f)) f = first_line f"
  unfolding first_line_def by (induction f) auto

lemma take_first_line: "n \<le> length (first_line f) \<Longrightarrow> take n (first_line f) = take n f"
  by (metis first_line_prefix min.absorb2 take_take min.commute)

lemma take_length_take: "take (length (take k ys)) ys = take k ys"
  by (cases "k \<le> length ys") (simp_all add: min_def)

lemma take_line_le: "length (take_line k f) \<le> k"
  by (induction k f rule: take_line.induct) auto

lemma take_line_prefix: "take (length (take_line k f)) f = take_line k f"
  by (induction k f rule: take_line.induct) auto

lemma seen_cut: "CHR 0x00 \<in> set a \<Longrightarrow> seen (a @ b) = seen a"
  by (induction a) (auto simp: seen_def)

lemma seen_shorter: "CHR 0x00 \<in> set a \<Longrightarrow> length (seen a) < length a"
  by (induction a) (auto simp: seen_def)

lemma seen_no_newline: "newline \<notin> set (butlast a) \<Longrightarrow> CHR 0x00 \<in> set a \<Longrightarrow> newline \<notin> set (seen a)"
proof (induction a)
  case Nil
  then show ?case by simp
next
  case (Cons c a)
  show ?case
  proof (cases "c = CHR 0x00")
    case True
    then show ?thesis by (simp add: seen_def)
  next
    case False
    with Cons.prems have "a \<noteq> []" by auto
    with Cons False show ?thesis by (auto simp: seen_def)
  qed
qed

text \<open>
  What the first call of \<^verbatim>\<open>read_next_line\<close> leaves in the buffer, of a file that does
  not start with a nul: the first line up to its first nul; when it holds no nul, the
  first line without its newline and without a carriage return before it.
\<close>

definition first_seen :: "string \<Rightarrow> string" where
  "first_seen f =
     (if CHR 0x00 \<in> set (first_line f) then seen f
      else if newline \<in> set f then chomp (first_line f @ [newline])
      else f)"

lemma read_line_loop_buffer:
  "read_line_loop buf len f s = Some (1, buf', len', f', s') \<Longrightarrow> newline \<notin> set buf \<Longrightarrow>
   CHR 0x00 \<notin> set buf \<Longrightarrow>
   buf' = (if CHR 0x00 \<in> set (first_line f) then buf @ seen f
           else if newline \<in> set f then chomp (buf @ first_line f @ [newline])
           else buf @ f)"
proof (induction buf len f s rule: read_line_loop.induct)
  case (1 buf len f s)
  note eq = "1.prems"(1) [unfolded read_line_loop.simps [of buf len f s]]
  note nb = "1.prems"(2) and zb = "1.prems"(3)
  from eq have len: "\<not> len < 2" by (auto split: if_splits)
  note eq0 = eq [unfolded eq_False [THEN iffD2, OF len] if_False]
  show ?case
  proof (cases "fgets (len - length buf) f")
    case None
    then have "f = []" by (simp add: fgets_def split: if_splits)
    with eq0 None show ?thesis by (auto simp: first_line_def split: if_splits)
  next
    case (Some x)
    obtain chunk f1 where x: "x = (chunk, f1)" by (cases x)
    let ?k = "len - length buf - 1"
    from Some x have f: "f \<noteq> []" and c: "chunk = take_line ?k f"
      and f1: "f1 = drop (length chunk) f"
      by (auto simp: fgets_def split: if_splits)
    let ?b = "seen (buf @ chunk)"
    have sb: "?b = buf @ seen chunk" by (rule seen_append [OF zb])
    note eq1 = eq0 [unfolded Some x option.case prod.case]
    from eq1 have ne: "?b \<noteq> []" by (auto split: if_splits)
    note eq2 = eq1 [unfolded eq_False [THEN iffD2, OF ne] if_False]
    have ck: "length chunk \<le> ?k" unfolding c by (rule take_line_le)
    have shape: "chunk = first_line f @ [newline] \<and> newline \<in> set f \<or>
                 chunk = take ?k (first_line f) \<and> newline \<notin> set chunk \<and>
                 (length chunk < ?k \<longrightarrow> newline \<notin> set f)"
    proof (cases "chunk \<noteq> [] \<and> last chunk = newline")
      case True
      then have cne: "chunk \<noteq> []" and lc: "last chunk = newline" by simp_all
      from take_line_newline [OF cne [unfolded c] lc [unfolded c], folded c]
      show ?thesis by blast
    next
      case False
      from take_line_no_newline [OF False [unfolded c], folded c] show ?thesis by blast
    qed
    have pre: "take (length chunk) f = chunk" unfolding c by (rule take_line_prefix)
    then have c2: "chunk @ f1 = f" unfolding f1 by (metis append_take_drop_id)
    show ?thesis
    proof (cases "CHR 0x00 \<in> set chunk")
      case nul: True
      have nfl: "CHR 0x00 \<in> set (first_line f)"
        using shape nul by (auto simp: newline_def dest: in_set_takeD)
      have sf: "seen f = seen chunk" using seen_cut [OF nul, of f1] c2 by simp
      have "newline \<notin> set (butlast chunk)"
        using shape unfolding first_line_def
        by (auto dest: set_takeWhileD in_set_butlastD)
      from seen_no_newline [OF this nul] nb have "newline \<notin> set ?b" by (simp add: sb)
      with ne have nl: "last ?b \<noteq> newline" using last_in_set [OF ne] by metis
      from nul have "chunk \<noteq> []" by auto
      with ck have "length buf + ?k = len - 1" by (cases chunk) auto
      with seen_shorter [OF nul] ck have short: "length ?b < len - 1" by (simp add: sb)
      from eq2 nl short have "buf' = ?b" by simp
      with nfl sf sb show ?thesis by simp
    next
      case nonul: False
      from nonul zb have sid: "?b = buf @ chunk" by (simp add: sb seen_no_nul)
      show ?thesis
      proof (cases "last ?b = newline")
        case True
        with eq2 have b': "buf' = chomp ?b" by simp
        from True ne nb sid have cl: "chunk \<noteq> [] \<and> last chunk = newline"
          by (metis append_Nil2 last_appendR last_in_set)
        then have "newline \<in> set chunk" by (metis last_in_set)
        with shape have ch: "chunk = first_line f @ [newline]" and nf: "newline \<in> set f"
          by blast+
        from ch nonul have "CHR 0x00 \<notin> set (first_line f)" by simp
        with b' sid ch nf show ?thesis by simp
      next
        case nl: False
        note eq3 = eq2 [unfolded eq_False [THEN iffD2, OF nl] if_False]
        from nl sid ne have "\<not> (chunk \<noteq> [] \<and> last chunk = newline)" by auto
        with shape have ckk: "chunk = take ?k (first_line f)" and nc: "newline \<notin> set chunk"
          and short: "length chunk < ?k \<longrightarrow> newline \<notin> set f"
          by (auto simp: first_line_def dest: set_takeWhileD)
        show ?thesis
        proof (cases "length ?b < len - 1")
          case True
          with len sid have "length chunk < ?k" by simp
          with short have nf: "newline \<notin> set f" by simp
          with ckk \<open>length chunk < ?k\<close> have "chunk = f"
            by (simp add: first_line_no_newline)
          with eq3 True nf nonul sid show ?thesis by (simp add: first_line_no_newline)
        next
          case full: False
          note eq4 = eq3 [unfolded eq_False [THEN iffD2, OF full] if_False]
          obtain ok s1 where a: "alloc s = (ok, s1)" by (cases "alloc s")
          show ?thesis
          proof (cases ok)
            case False
            with eq4 a show ?thesis by simp
          next
            case True
            with eq4 a
            have rec: "read_line_loop ?b (len + len div 2) f1 s1 = Some (1, buf', len', f', s')"
              by simp
            from True have t: "ok = True" by simp
            from nb nc sid have nbc: "newline \<notin> set ?b" by simp
            have zbc: "CHR 0x00 \<notin> set ?b" by simp
            have ih: "buf' = (if CHR 0x00 \<in> set (first_line f1) then ?b @ seen f1
                   else if newline \<in> set f1 then chomp (?b @ first_line f1 @ [newline])
                   else ?b @ f1)"
              by (rule "1.IH" [OF len Some x [symmetric] ne nl full a [symmetric] t rec nbc zbc])
            have le: "length chunk \<le> length (first_line f)" using ckk by simp
            from first_line_drop [OF le] f1
            have fl: "first_line f1 = drop (length chunk) (first_line f)"
              and nn: "newline \<in> set f1 \<longleftrightarrow> newline \<in> set f" by simp_all
            have cl: "chunk = take (length chunk) (first_line f)"
              using take_length_take [of ?k "first_line f"] unfolding ckk [symmetric] by simp
            then have c1: "chunk @ first_line f1 = first_line f"
              unfolding fl by (metis append_take_drop_id)
            from c1 nonul have zz: "CHR 0x00 \<in> set (first_line f1) \<longleftrightarrow> CHR 0x00 \<in> set (first_line f)"
              by (metis Un_iff set_append)
            have sf: "seen f = chunk @ seen f1" using seen_append [OF nonul, of f1] c2 by simp
            have e1: "?b @ seen f1 = buf @ seen f" by (simp add: sid sf)
            have e2: "?b @ first_line f1 @ [newline] = buf @ first_line f @ [newline]"
              using c1 by (simp add: sid) 
            have e3: "?b @ f1 = buf @ f" using c2 by (simp add: sid)
            from ih show ?thesis unfolding e1 e2 e3 zz nn .
          qed
        qed
      qed
    qed
  qed
qed

lemma read_line_loop_returns:
  "2 \<le> len \<Longrightarrow> CHR 0x00 \<notin> set buf \<Longrightarrow> buf \<noteq> [] \<or> take 1 f \<noteq> [CHR 0x00] \<Longrightarrow>
   read_line_loop buf len f s \<noteq> None"
proof (induction buf len f s rule: read_line_loop.induct)
  case (1 buf len f s)
  from "1.prems" have len: "\<not> len < 2" by simp
  note zb = "1.prems"(2)
  show ?case
  proof (cases "fgets (len - length buf) f")
    case None
    with len show ?thesis by (subst read_line_loop.simps) simp
  next
    case (Some x)
    obtain chunk f1 where x: "x = (chunk, f1)" by (cases x)
    let ?b = "seen (buf @ chunk)"
    have sb: "?b = buf @ seen chunk" by (rule seen_append [OF zb])
    have ne: "?b \<noteq> []"
    proof (cases "buf = []")
      case False
      then show ?thesis by (simp add: sb)
    next
      case True
      with "1.prems"(3) have h: "take 1 f \<noteq> [CHR 0x00]" by simp
      from Some x have f: "f \<noteq> []" and c: "chunk = take_line (len - length buf - 1) f"
        by (auto simp: fgets_def split: if_splits)
      from len True obtain k where k: "len - length buf - 1 = Suc k"
        by (cases "len - length buf - 1") auto
      from f obtain a f0 where af: "f = a # f0" by (cases f) auto
      with h have "a \<noteq> CHR 0x00" by simp
      with c k af have "seen chunk \<noteq> []" by (auto simp: seen_def)
      then show ?thesis by (simp add: sb)
    qed
    show ?thesis
    proof (cases "last ?b = newline")
      case True
      with len Some x ne show ?thesis by (subst read_line_loop.simps) simp
    next
      case nl: False
      show ?thesis
      proof (cases "length ?b < len - 1")
        case True
        with len Some x ne nl show ?thesis by (subst read_line_loop.simps) simp
      next
        case full: False
        obtain ok s1 where a: "alloc s = (ok, s1)" by (cases "alloc s")
        show ?thesis
        proof (cases ok)
          case False
          with len Some x ne nl full a show ?thesis
            by (subst read_line_loop.simps) simp
        next
          case True
          then have t: "ok = True" by simp
          from "1.prems" have l2: "2 \<le> len + len div 2" by simp
          have zbc: "CHR 0x00 \<notin> set ?b" by simp
          from "1.IH" [OF len Some x [symmetric] ne nl full a [symmetric] t l2 zbc disjI1 [OF ne]]
          have "read_line_loop ?b (len + len div 2) f1 s1 \<noteq> None" .
          with len Some x ne nl full a True show ?thesis
            by (subst read_line_loop.simps) simp
        qed
      qed
    qed
  qed
qed

lemma chomp_line:
  "chomp (l @ [newline]) = (if l \<noteq> [] \<and> last l = CHR 0x0D then butlast l else l)"
  by (simp add: chomp_def)

lemma mem_alloc_plan:
  "mem_alloc s = (b, s1) \<Longrightarrow>
   b = (case allocs s of [] \<Rightarrow> True | x # xs \<Rightarrow> x) \<and> allocs s1 = tl (allocs s)"
  by (auto simp: mem_alloc_def alloc_def set_error_def split: list.splits bool.splits)

lemma mem_alloc_error:
  "mem_alloc s = (False, s1) \<Longrightarrow> last_error s1 = Some ERROR_OUTOFMEMORY"
  by (auto dest: mem_alloc_fields)

text \<open>
  C8. The claim as stated fails: \<^verbatim>\<open>read_next_line\<close> takes the length of the line
  with \<^verbatim>\<open>strlen\<close>, so a nul in the first line ends what \<^verbatim>\<open>load_keys\<close> compares
  with the header. The first line of this file is the header followed by a nul and
  \<open>zz\<close>, which is not exactly the header; the file is accepted, no error is set, and
  the key \<open>A\<close> of its second line is created in the fresh tree.
\<close>

theorem load_keys_header_before_nul:
  "first_line (registry_header @ [CHR 0x00] @ ''zz'' @ [newline] @
               ''[r'' @ [bslash, bslash] @ ''A] 1'' @ [newline])
   = registry_header @ [CHR 0x00] @ ''zz'' \<and>
   load_keys (Key None None 0 [] 0 [] 4 0 9)
     (registry_header @ [CHR 0x00] @ ''zz'' @ [newline] @
      ''[r'' @ [bslash, bslash] @ ''A] 1'' @ [newline])
     (initial_server 9 [])
   = Some (Key None None 8 [Key (Some [0x41]) None 0 [] 0 [] 0 0 1] 0 [] 4 0 9,
           initial_server 9 [])"
  by code_simp

text \<open>
  C8, amended. Take a file that does not start with a nul, and let what the first call
  of \<^verbatim>\<open>read_next_line\<close> sees of it not be \<^verbatim>\<open>WINE REGISTRY Version 2\<close>: that is the
  first line up to its first nul, and for a first line without nul the line without
  its newline and without a carriage return before the newline. Then \<^verbatim>\<open>load_keys\<close>
  returns with the tree it was given, no key or value created, and the error is
  \<^verbatim>\<open>NOT_REGISTRY_FILE\<close>; only when one of the two buffers it allocates before reading
  cannot be had is the error that of the allocation. (On a file that starts with a nul
  the source reads the byte before its line buffer.)
\<close>

theorem load_keys_not_registry_file:
  assumes h0: "take 1 f \<noteq> [CHR 0x00]"
    and h1: "first_seen f \<noteq> registry_header"
  shows "\<exists>s'. load_keys key f s = Some (key, s') \<and>
           last_error s' =
             Some (if list_all (\<lambda>b. b) (take 2 (allocs s)) then ERROR_NOT_REGISTRY_FILE
                   else ERROR_OUTOFMEMORY)"
proof -
  obtain b1 s1 where m1: "mem_alloc s = (b1, s1)" by (cases "mem_alloc s")
  obtain b2 s2 where m2: "mem_alloc s1 = (b2, s2)" by (cases "mem_alloc s1")
  note p1 = mem_alloc_plan [OF m1] and p2 = mem_alloc_plan [OF m2]
  have plan: "list_all (\<lambda>b. b) (take 2 (allocs s)) \<longleftrightarrow> b1 \<and> b2"
  proof (cases "allocs s")
    case Nil
    with p1 p2 show ?thesis by simp
  next
    case (Cons x xs)
    with p1 p2 show ?thesis by (cases xs) auto
  qed
  show ?thesis
  proof (cases b1)
    case False
    with m1 plan mem_alloc_error [of s s1] show ?thesis by (simp add: load_keys_def)
  next
    case b1: True
    show ?thesis
    proof (cases b2)
      case False
      with m1 m2 b1 plan mem_alloc_error [of s1 s2] show ?thesis by (simp add: load_keys_def)
    next
      case b2: True
      from read_line_loop_returns [of 4 "[]" f s2] h0
      obtain x where x: "read_line_loop [] 4 f s2 = Some x" by (auto simp: not_None_eq)
      obtain rc buf len f' s3 where xx: "x = (rc, buf, len, f', s3)" by (rule prod_cases5)
      have nh: "\<not> (rc = 1 \<and> buf = registry_header)"
      proof
        assume a: "rc = 1 \<and> buf = registry_header"
        with x xx have "read_line_loop [] 4 f s2 = Some (1, buf, len, f', s3)" by simp
        from read_line_loop_buffer [OF this] have "buf = first_seen f"
          by (simp add: first_seen_def)
        with a h1 show False by simp
      qed
      have "load_keys key f s = Some (key, set_error ERROR_NOT_REGISTRY_FILE s3)"
        using m1 m2 b1 b2 x xx nh
        by (auto simp: load_keys_def read_next_line_def)
      with plan b1 b2 show ?thesis by simp
    qed
  qed
qed

theorem load_keys_not_registry_file_witness:
  "take 1 (''WINE REGISTRY Version 1'' @ [newline] @ ''[x]'' @ [newline]) \<noteq> [CHR 0x00] \<and>
   first_seen (''WINE REGISTRY Version 1'' @ [newline] @ ''[x]'' @ [newline])
     \<noteq> registry_header \<and>
   (\<exists>s'. load_keys (Key None None 0 [] 0 [] 4 0 9)
           (''WINE REGISTRY Version 1'' @ [newline] @ ''[x]'' @ [newline]) (initial_server 9 [])
         = Some (Key None None 0 [] 0 [] 4 0 9, s') \<and>
         last_error s' = Some ERROR_NOT_REGISTRY_FILE)"
proof -
  let ?f = "''WINE REGISTRY Version 1'' @ [newline] @ ''[x]'' @ [newline]"
  have a: "take 1 ?f \<noteq> [CHR 0x00]" by simp
  have b: "first_seen ?f \<noteq> registry_header" by code_simp
  from load_keys_not_registry_file [OF a b,
      of "Key None None 0 [] 0 [] 4 0 9" "initial_server 9 []"]
  have "\<exists>s'. load_keys (Key None None 0 [] 0 [] 4 0 9) ?f (initial_server 9 [])
         = Some (Key None None 0 [] 0 [] 4 0 9, s') \<and>
         last_error s' = Some ERROR_NOT_REGISTRY_FILE"
    by (simp add: initial_server_def)
  with a b show ?thesis by blast
qed

section \<open>Properties of save_registry\<close>

text \<open>
  C7. The claim as stated fails: in the state the server starts in, \<^verbatim>\<open>saving_version\<close>
  is 1, and \<^verbatim>\<open>save_registry\<close> on a root key with the one subkey \<open>A\<close> writes the header
  of version 1 and the subkey in the old format, a line with its name.
\<close>

theorem save_registry_default_version_1:
  "save_registry ''HKEY_LOCAL_MACHINE'' []
     (Key None None 8 [Key (Some [0x41]) None 0 [] 0 [] 0 0 7] 0 [] 4 0 5)
     (initial_server 9 [])
   = (Some (''WINE REGISTRY Version 1'' @ [newline] @ ''A'' @ [newline]),
      Key None None 8 [Key (Some [0x41]) None 0 [] 0 [] 0 0 7] 0 [] 4 0 5,
      initial_server 9 [])"
  by code_simp

text \<open>
  C7, amended. For a key that is not deleted, \<^verbatim>\<open>save_registry\<close> writes the header
  \<^verbatim>\<open>WINE REGISTRY Version\<close> with the value of \<^verbatim>\<open>saving_version\<close>; when that value
  is 2 the header is the one \<^verbatim>\<open>load_keys\<close> asks for and the keys follow as the blocks
  of \<^verbatim>\<open>save_subkeys\<close>; for every other value the keys follow in the old format of
  \<^verbatim>\<open>save_subkeys_v1\<close>, after \<^verbatim>\<open>update_level\<close>. The server starts with
  \<^verbatim>\<open>saving_version\<close> 1, so the old format is the default.
\<close>

theorem save_registry_version:
  assumes "flags key AND KEY_DELETED = 0"
  shows "(saving_version s = 2 \<longrightarrow>
            save_registry lbl ancs key s
            = (Some (registry_header @ [newline] @ save_subkeys lbl ancs (saving_level s) key),
               key, s)) \<and>
         (saving_version s \<noteq> 2 \<longrightarrow>
            save_registry lbl ancs key s
            = (Some (''WINE REGISTRY Version '' @ fmt_d (saving_version s) @ [newline] @
                     save_subkeys_v1 (saving_level s) 0 (update_level key)),
               update_level key, s)) \<and>
         saving_version (initial_server clock plan) = 1"
proof -
  have "digits 10 2 = [2]" by (subst digits.simps) simp
  then have "fmt_d 2 = ''2''" by (simp add: fmt_d_def fmt_u_def digit_char_def)
  with assms show ?thesis
    by (simp add: save_registry_def registry_header_def initial_server_def)
qed

theorem save_registry_version_witness:
  "flags (Key None None 8 [Key (Some [0x41]) None 0 [] 0 [] 0 0 7] 0 [] 4 0 5) AND KEY_DELETED = 0 \<and>
   saving_version ((initial_server 9 []) \<lparr>saving_version := 2\<rparr>) = 2 \<and>
   save_registry ''HKEY_LOCAL_MACHINE'' []
     (Key None None 8 [Key (Some [0x41]) None 0 [] 0 [] 0 0 7] 0 [] 4 0 5)
     ((initial_server 9 []) \<lparr>saving_version := 2\<rparr>)
   = (Some (registry_header @ [newline] @
            save_subkeys ''HKEY_LOCAL_MACHINE'' [] 0
              (Key None None 8 [Key (Some [0x41]) None 0 [] 0 [] 0 0 7] 0 [] 4 0 5)),
      Key None None 8 [Key (Some [0x41]) None 0 [] 0 [] 0 0 7] 0 [] 4 0 5,
      (initial_server 9 []) \<lparr>saving_version := 2\<rparr>) \<and>
   save_subkeys ''HKEY_LOCAL_MACHINE'' [] 0
     (Key None None 8 [Key (Some [0x41]) None 0 [] 0 [] 0 0 7] 0 [] 4 0 5)
   = [newline] @ ''[HKEY_LOCAL_MACHINE'' @ [bslash, bslash] @ ''A] 7'' @ [newline]"
proof -
  let ?k = "Key None None 8 [Key (Some [0x41]) None 0 [] 0 [] 0 0 7] 0 [] 4 0 5"
  let ?s = "(initial_server 9 []) \<lparr>saving_version := 2\<rparr>"
  have a: "flags ?k AND KEY_DELETED = 0" by (simp add: KEY_DELETED_def)
  have b: "saving_version ?s = 2" by simp
  from save_registry_version [OF a, of ?s "''HKEY_LOCAL_MACHINE''" "[]"] b
  have c: "save_registry ''HKEY_LOCAL_MACHINE'' [] ?k ?s
     = (Some (registry_header @ [newline] @ save_subkeys ''HKEY_LOCAL_MACHINE'' [] 0 ?k), ?k, ?s)"
    by (simp add: initial_server_def)
  have d: "save_subkeys ''HKEY_LOCAL_MACHINE'' [] 0 ?k
     = [newline] @ ''[HKEY_LOCAL_MACHINE'' @ [bslash, bslash] @ ''A] 7'' @ [newline]"
    by code_simp
  from a b c d show ?thesis by blast
qed

end
